theory Spec2Isabelle
  imports Main "HOL-Library.Code_Target_Nat"
begin

section \<open>Strings\<close>

text \<open>
  A JavaScript string is a sequence of UTF-16 code units.  The Hebrew text handled by
  the importer lies outside the 8-bit range of \<^typ>\<open>char\<close>, so a string is modelled as the
  list of its code units, each given by its number.  ASCII literals of the source are
  written \<open>ascii ''...''\<close>.
\<close>

type_synonym jstring = "nat list"

definition ascii :: "string \<Rightarrow> jstring" where
  "ascii s = map of_char s"

text \<open>\<open>MAQQEF\<close>, the Hebrew maqqef, code point U+05BE.\<close>

definition MAQQEF :: jstring where
  "MAQQEF = [0x5BE]"

text \<open>The character class \<open>\d\<close>.\<close>

definition is_digit :: "nat \<Rightarrow> bool" where
  "is_digit c = (48 \<le> c \<and> c \<le> 57)"

text \<open>
  The character class \<open>\s\<close>, which is also the set that \<open>String.prototype.trim\<close>
  strips: the white space and line terminator code points of ECMAScript.
\<close>

definition is_space :: "nat \<Rightarrow> bool" where
  "is_space c = (c \<in> set [9, 10, 11, 12, 13, 32, 0xA0, 0x1680, 0x2028, 0x2029, 0x202F,
                          0x205F, 0x3000, 0xFEFF] \<or> (0x2000 \<le> c \<and> c \<le> 0x200A))"

text \<open>\<open>s.trim()\<close>\<close>

definition trim :: "jstring \<Rightarrow> jstring" where
  "trim s = rev (dropWhile is_space (rev (dropWhile is_space s)))"

text \<open>\<open>s.replace(/\//g, '')\<close>: every slash is removed.\<close>

definition remove_slashes :: "jstring \<Rightarrow> jstring" where
  "remove_slashes s = filter (\<lambda>c. c \<noteq> 47) s"

text \<open>
  \<open>s.split(/\s+/)\<close>: the pieces between maximal runs of white space; a leading or
  trailing run leaves an empty piece, and the empty string splits into one empty piece.
\<close>

function split_ws :: "jstring \<Rightarrow> jstring list" where
  "split_ws s =
     (let tok = takeWhile (\<lambda>c. \<not> is_space c) s;
          rest = dropWhile (\<lambda>c. \<not> is_space c) s
      in if rest = [] then [tok] else tok # split_ws (dropWhile is_space rest))"
  by pat_completeness auto

lemma length_dropWhile_less:
  "xs \<noteq> [] \<Longrightarrow> P (hd xs) \<Longrightarrow> length (dropWhile P xs) < length xs"
  by (cases xs) (auto simp: le_imp_less_Suc length_dropWhile_le)

lemma split_ws_decreases:
  "dropWhile (\<lambda>c. \<not> is_space c) s \<noteq> [] \<Longrightarrow>
   length (dropWhile is_space (dropWhile (\<lambda>c. \<not> is_space c) s)) < length s"
proof -
  assume ne: "dropWhile (\<lambda>c. \<not> is_space c) s \<noteq> []"
  have "is_space (hd (dropWhile (\<lambda>c. \<not> is_space c) s))"
    using hd_dropWhile [OF ne] by simp
  then have "length (dropWhile is_space (dropWhile (\<lambda>c. \<not> is_space c) s))
             < length (dropWhile (\<lambda>c. \<not> is_space c) s)"
    using ne by (rule length_dropWhile_less [rotated])
  also have "\<dots> \<le> length s"
    by (rule length_dropWhile_le)
  finally show ?thesis .
qed

termination split_ws
  by (relation "measure length") (auto intro: split_ws_decreases)

declare split_ws.simps [simp del]

text \<open>\<open>s.split(/\s+/).filter(Boolean)\<close>: the empty pieces are dropped.\<close>

definition tokens :: "jstring \<Rightarrow> jstring list" where
  "tokens s = filter (\<lambda>t. t \<noteq> []) (split_ws s)"

text \<open>\<open>s.startsWith(p)\<close>\<close>

definition startsWith :: "jstring \<Rightarrow> jstring \<Rightarrow> bool" where
  "startsWith s p = (take (length p) s = p)"

text \<open>\<open>xs.join(sep)\<close> on an array of strings.\<close>

fun join :: "jstring \<Rightarrow> jstring list \<Rightarrow> jstring" where
  "join sep [] = []"
| "join sep [x] = x"
| "join sep (x # y # ys) = x @ sep @ join sep (y # ys)"

text \<open>
  \<open>parseInt(ds, 10)\<close> on a string of decimal digits, and the decimal rendering of a
  non-negative integer that a template literal or \<open>String(n)\<close> produces.
\<close>

definition digits_value :: "jstring \<Rightarrow> nat" where
  "digits_value ds = foldl (\<lambda>a c. 10 * a + (c - 48)) 0 ds"

fun decimal :: "nat \<Rightarrow> jstring" where
  "decimal n = (if n < 10 then [48 + n] else decimal (n div 10) @ [48 + n mod 10])"

declare decimal.simps [simp del]

text \<open>\<open>c.toUpperCase()\<close> for one ASCII code unit.\<close>

definition toUpperCase :: "nat \<Rightarrow> nat" where
  "toUpperCase c = (if 97 \<le> c \<and> c \<le> 122 then c - 32 else c)"


section \<open>Regular expressions\<close>

text \<open>
  The fragment of ECMAScript regular expressions used by \<open>STRONGS_RE\<close>: single
  characters, character classes, sequence, the greedy \<open>?\<close>, the greedy bounded
  repetition \<open>{lo,hi}\<close> and one capturing group.  The matcher is the backtracking
  matcher of the language definition in continuation-passing style: a pattern is
  matched against the input that is left, and the continuation \<open>k\<close> decides whether the
  rest of the pattern matches what follows; when it does not, the next alternative of
  the pattern is tried.
\<close>

datatype regex =
    Chr nat
  | OneOf "nat list"
  | Range nat nat
  | Seq regex regex
  | Opt regex
  | Rep nat nat regex
  | Group regex

fun rsize :: "regex \<Rightarrow> nat" where
  "rsize (Chr c) = 1"
| "rsize (OneOf cs) = 1"
| "rsize (Range a b) = 1"
| "rsize (Seq r1 r2) = rsize r1 + rsize r2 + 1"
| "rsize (Opt r) = rsize r + 1"
| "rsize (Rep lo hi r) = (hi + 1) * (rsize r + 1)"
| "rsize (Group r) = rsize r + 1"

function re_match ::
  "regex \<Rightarrow> jstring \<Rightarrow> jstring option \<Rightarrow> (jstring \<Rightarrow> jstring option \<Rightarrow> 'a option) \<Rightarrow> 'a option"
where
  "re_match (Chr c) s cap k =
     (case s of [] \<Rightarrow> None | x # xs \<Rightarrow> if x = c then k xs cap else None)"
| "re_match (OneOf cs) s cap k =
     (case s of [] \<Rightarrow> None | x # xs \<Rightarrow> if x \<in> set cs then k xs cap else None)"
| "re_match (Range a b) s cap k =
     (case s of [] \<Rightarrow> None | x # xs \<Rightarrow> if a \<le> x \<and> x \<le> b then k xs cap else None)"
| "re_match (Seq r1 r2) s cap k =
     re_match r1 s cap (\<lambda>s' cap'. re_match r2 s' cap' k)"
| "re_match (Opt r) s cap k =
     (case re_match r s cap k of Some y \<Rightarrow> Some y | None \<Rightarrow> k s cap)"
| "re_match (Rep lo hi r) s cap k =
     (if hi = 0 then k s cap
      else case re_match r s cap (\<lambda>s' cap'. re_match (Rep (lo - 1) (hi - 1) r) s' cap' k) of
             Some y \<Rightarrow> Some y
           | None \<Rightarrow> if lo = 0 then k s cap else None)"
| "re_match (Group r) s cap k =
     re_match r s cap (\<lambda>s' cap'. k s' (Some (take (length s - length s') s)))"
  by pat_completeness auto

termination re_match
  by (relation "measure (\<lambda>(r, s, cap, k). rsize r)") auto

lemmas re_match_Rep = re_match.simps(6)

declare re_match.simps(6) [simp del]

text \<open>
  A match of the whole pattern at the start of \<open>s\<close>: the input left after the match
  and the text of group 1.
\<close>

definition re_match_here :: "regex \<Rightarrow> jstring \<Rightarrow> (jstring \<times> jstring option) option" where
  "re_match_here r s = re_match r s None (\<lambda>rest cap. Some (rest, cap))"

text \<open>
  \<open>re.exec(s)\<close> from the current \<open>lastIndex\<close>, where \<open>s\<close> is the input from
  \<open>lastIndex\<close> on: the leftmost position at which the pattern matches.  The result
  is \<open>match[0]\<close>, \<open>match[1]\<close> and the input after the match (the new
  \<open>lastIndex\<close> of a global pattern).
\<close>

fun re_exec :: "regex \<Rightarrow> jstring \<Rightarrow> (jstring \<times> jstring option \<times> jstring) option" where
  "re_exec r [] =
     (case re_match_here r [] of
        None \<Rightarrow> None
      | Some (rest, cap) \<Rightarrow> Some ([], cap, rest))"
| "re_exec r (c # cs) =
     (case re_match_here r (c # cs) of
        Some (rest, cap) \<Rightarrow> Some (take (length (c # cs) - length rest) (c # cs), cap, rest)
      | None \<Rightarrow> re_exec r cs)"

text \<open>\<open>\d{1,5}\<close>\<close>

definition DIGITS_RE :: regex where
  "DIGITS_RE = Rep 1 5 (Range 48 57)"

text \<open>\<open>(?:strongs?:)?\<close>\<close>

definition MARKER_RE :: regex where
  "MARKER_RE =
     Opt (Seq (Chr 115) (Seq (Chr 116) (Seq (Chr 114) (Seq (Chr 111) (Seq (Chr 110)
         (Seq (Chr 103) (Seq (Opt (Chr 115)) (Chr 58))))))))"

text \<open>\<open>const STRONGS_RE = /(?:strongs?:)?([HGhg]?\d{1,5})/g\<close>\<close>

definition STRONGS_RE :: regex where
  "STRONGS_RE = Seq MARKER_RE (Group (Seq (Opt (OneOf [72, 71, 104, 103])) DIGITS_RE))"


section \<open>extractStrongs\<close>

text \<open>
  Whatever the matcher returns was returned by its continuation, on a suffix of the
  input the matcher started from.
\<close>

lemma re_match_suffix:
  "re_match r s cap k = Some y \<Longrightarrow> \<exists>s' cap' pre. k s' cap' = Some y \<and> s = pre @ s'"
proof (induction r s cap k arbitrary: y rule: re_match.induct)
  case (1 c s cap k)
  then show ?case by (cases s) (auto split: if_splits intro: exI [of _ "[_]"])
next
  case (2 cs s cap k)
  then show ?case by (cases s) (auto split: if_splits intro: exI [of _ "[_]"])
next
  case (3 a b s cap k)
  then show ?case by (cases s) (auto split: if_splits intro: exI [of _ "[_]"])
next
  case (4 r1 r2 s cap k)
  from "4.prems" have "re_match r1 s cap (\<lambda>s' cap'. re_match r2 s' cap' k) = Some y"
    by simp
  from "4.IH"(2) [OF this] obtain s1 c1
    where m2: "re_match r2 s1 c1 k = Some y" and l1: "\<exists>pre. s = pre @ s1"
    by blast
  from "4.IH"(1) [OF m2] obtain s2 c2
    where "k s2 c2 = Some y" and "\<exists>pre. s1 = pre @ s2"
    by blast
  with l1 show ?case by (metis append.assoc)
next
  case (5 r s cap k)
  show ?case
  proof (cases "re_match r s cap k")
    case None
    with "5.prems" have "k s cap = Some y" by simp
    then show ?thesis by (metis append_Nil)
  next
    case (Some z)
    with "5.prems" have "re_match r s cap k = Some y" by simp
    from "5.IH" [OF this] show ?thesis .
  qed
next
  case (6 lo hi r s cap k)
  show ?case
  proof (cases "hi = 0")
    case True
    with "6.prems" have "k s cap = Some y" by (simp add: re_match_Rep)
    then show ?thesis by (metis append_Nil)
  next
    case False
    let ?inner = "\<lambda>s' cap'. re_match (Rep (lo - 1) (hi - 1) r) s' cap' k"
    show ?thesis
    proof (cases "re_match r s cap ?inner")
      case None
      with False "6.prems" have "k s cap = Some y"
        by (simp add: re_match_Rep split: if_splits)
      then show ?thesis by (metis append_Nil)
    next
      case (Some z)
      with False "6.prems" have "re_match r s cap ?inner = Some y"
        by (simp add: re_match_Rep)
      from "6.IH"(2) [OF False this] obtain s1 c1
        where m2: "re_match (Rep (lo - 1) (hi - 1) r) s1 c1 k = Some y"
          and l1: "\<exists>pre. s = pre @ s1"
        by blast
      from "6.IH"(1) [OF False m2] obtain s2 c2
        where "k s2 c2 = Some y" and "\<exists>pre. s1 = pre @ s2"
        by blast
      with l1 show ?thesis by (metis append.assoc)
    qed
  qed
next
  case (7 r s cap k)
  from "7.IH" [OF "7.prems" [simplified]] show ?case by blast
qed

lemma re_match_suffix_length:
  "re_match r s cap k = Some y \<Longrightarrow> \<exists>s' cap'. k s' cap' = Some y \<and> length s' \<le> length s"
  by (drule re_match_suffix) auto

lemma re_match_digit:
  "re_match (Range 48 57) s cap k =
     (case s of [] \<Rightarrow> None | x # xs \<Rightarrow> if is_digit x then k xs cap else None)"
  by (cases s) (simp_all add: is_digit_def)

text \<open>
  In front of a continuation that accepts everything, a greedy run of digits takes as
  many digits as there are, up to its upper bound.
\<close>

lemma re_match_digits:
  assumes k: "\<And>s c. k s c \<noteq> None" and "lo \<le> hi"
  shows "re_match (Rep lo hi (Range 48 57)) s cap k =
     (let n = length (takeWhile is_digit (take hi s))
      in if lo \<le> n then k (drop n s) cap else None)"
  using \<open>lo \<le> hi\<close>
proof (induction hi arbitrary: lo s)
  case 0
  then show ?case by (subst re_match_Rep) simp
next
  case (Suc h)
  show ?case
  proof (cases s)
    case Nil
    then show ?thesis by (subst re_match_Rep) simp
  next
    case (Cons x xs)
    show ?thesis
    proof (cases "is_digit x")
      case False
      then show ?thesis
        by (subst re_match_Rep) (use False Cons in \<open>simp add: re_match_digit del: re_match.simps(3)\<close>)
    next
      case True
      then have "re_match (Rep lo (Suc h) (Range 48 57)) s cap k =
          (case re_match (Rep (lo - 1) h (Range 48 57)) xs cap k of Some y \<Rightarrow> Some y
           | None \<Rightarrow> if lo = 0 then k s cap else None)"
        by (subst re_match_Rep) (use True Cons in \<open>simp add: re_match_digit del: re_match.simps(3)\<close>)
      also have "\<dots> = (let n = length (takeWhile is_digit (take h xs)) in
           if lo - 1 \<le> n then k (drop n xs) cap else None)"
        using k [of "drop (length (takeWhile is_digit (take h xs))) xs" cap] Suc.prems
        by (auto simp: Suc.IH Let_def split: option.splits)
      finally show ?thesis using True Cons by (auto simp: Let_def)
    qed
  qed
qed


text \<open>
  Every match of \<open>STRONGS_RE\<close> consumes at least one digit, so the loop of
  \<open>extractStrongs\<close> advances \<open>lastIndex\<close> at every iteration.
\<close>

lemma STRONGS_RE_consumes:
  assumes "re_match_here STRONGS_RE s = Some (rest, cap)"
  shows "length rest < length s"
proof -
  let ?K = "\<lambda>rest cap. Some (rest, cap) :: (jstring \<times> jstring option) option"
  let ?G = "Group (Seq (Opt (OneOf [72, 71, 104, 103])) DIGITS_RE)"
  from assms have "re_match MARKER_RE s None (\<lambda>s' cap'. re_match ?G s' cap' ?K) = Some (rest, cap)"
    by (simp add: re_match_here_def STRONGS_RE_def)
  from re_match_suffix_length [OF this] obtain s1 c1
    where g: "re_match ?G s1 c1 ?K = Some (rest, cap)" and l1: "length s1 \<le> length s"
    by blast
  let ?K1 = "\<lambda>s' cap'. ?K s' (Some (take (length s1 - length s') s1))"
  from g have "re_match (Opt (OneOf [72, 71, 104, 103])) s1 c1
                 (\<lambda>s' cap'. re_match DIGITS_RE s' cap' ?K1) = Some (rest, cap)"
    by simp
  from re_match_suffix_length [OF this] obtain s2 c2
    where d: "re_match DIGITS_RE s2 c2 ?K1 = Some (rest, cap)" and l2: "length s2 \<le> length s1"
    by blast
  let ?n = "length (takeWhile is_digit (take 5 s2))"
  from d have n: "1 \<le> ?n" and r: "rest = drop ?n s2"
    by (auto simp: DIGITS_RE_def re_match_digits Let_def split: if_splits)
  have "?n \<le> length s2"
    by (rule le_trans [OF length_takeWhile_le]) simp
  with n r have "length rest < length s2" by simp
  with l1 l2 show ?thesis by simp
qed

lemma re_exec_STRONGS_RE_shorter:
  "re_exec STRONGS_RE s = Some (m0, cap, rest) \<Longrightarrow> length rest < length s"
proof (induction s)
  case Nil
  then show ?case
    by (auto split: option.splits dest: STRONGS_RE_consumes)
next
  case (Cons c cs)
  show ?case
  proof (cases "re_match_here STRONGS_RE (c # cs)")
    case None
    with Cons.prems have "re_exec STRONGS_RE cs = Some (m0, cap, rest)" by simp
    from Cons.IH [OF this] show ?thesis by simp
  next
    case (Some p)
    with Cons.prems have "re_match_here STRONGS_RE (c # cs) = Some (rest, cap)"
      by (cases p) auto
    then show ?thesis by (rule STRONGS_RE_consumes)
  qed
qed

text \<open>
  The \<open>while\<close> loop of \<open>extractStrongs\<close>.  \<open>s\<close> is the input from \<open>lastIndex\<close> on
  and \<open>results\<close> the array built so far.  \<open>token\<close> is \<open>match[1]\<close>, which every match
  of \<open>STRONGS_RE\<close> sets, since the group is not optional.
\<close>

function extractStrongs_loop :: "jstring \<Rightarrow> jstring list \<Rightarrow> jstring list" where
  "extractStrongs_loop s results =
     (case re_exec STRONGS_RE s of
        None \<Rightarrow> results
      | Some (m0, cap, rest) \<Rightarrow>
          (let token = (case cap of Some t \<Rightarrow> t | None \<Rightarrow> []);
               prefix = (case token of
                           [] \<Rightarrow> []
                         | c # _ \<Rightarrow> if c \<in> set (ascii ''HGhg'') then [toUpperCase c] else [])
           in case re_exec DIGITS_RE token of
                None \<Rightarrow> extractStrongs_loop rest results
              | Some (digits, _, _) \<Rightarrow>
                  extractStrongs_loop rest
                    (results @ [(if prefix = [] then ascii ''H'' else prefix)
                                @ decimal (digits_value digits)])))"
  by pat_completeness auto

termination extractStrongs_loop
  by (relation "measure (\<lambda>(s, results). length s)")
     (auto dest: re_exec_STRONGS_RE_shorter)

declare extractStrongs_loop.simps [simp del]

text \<open>
  \<open>extractStrongs(value)\<close>.  The second parameter of the source is not used by its body.
  \<open>None\<close> is \<open>null\<close>; the empty string is falsy as well.
\<close>

definition extractStrongs :: "jstring option \<Rightarrow> jstring list" where
  "extractStrongs value =
     (case value of
        None \<Rightarrow> []
      | Some s \<Rightarrow> if s = [] then [] else extractStrongs_loop s [])"


section \<open>The specification of extractStrongs\<close>

text \<open>
  The scan that the specification describes, written down from its words and not from
  the regular expression of the source; \<open>extractStrongs\<close> is compared with it below.
\<close>

text \<open>A prefix letter: one of \<open>H\<close>, \<open>G\<close>, \<open>h\<close>, \<open>g\<close>.\<close>

definition spec_prefix_letter :: "nat \<Rightarrow> bool" where
  "spec_prefix_letter c = (c \<in> set (ascii ''HGhg''))"

text \<open>The run of decimal digits at the start of \<open>s\<close>, up to five of them.\<close>

definition spec_digit_run :: "jstring \<Rightarrow> jstring" where
  "spec_digit_run s = takeWhile is_digit (take 5 s)"

text \<open>
  A token at the start of \<open>s\<close>: an optional prefix letter and a run of one to five
  digits.  The result is the token and the input after it.
\<close>

definition spec_token_at :: "jstring \<Rightarrow> (jstring \<times> jstring) option" where
  "spec_token_at s =
     (case s of
        [] \<Rightarrow> None
      | c # t \<Rightarrow>
          if spec_prefix_letter c \<and> spec_digit_run t \<noteq> []
          then Some (c # spec_digit_run t, drop (length (spec_digit_run t)) t)
          else if spec_digit_run s \<noteq> []
          then Some (spec_digit_run s, drop (length (spec_digit_run s)) s)
          else None)"

text \<open>The input after a marker \<open>strongs:\<close> or \<open>strong:\<close> at the start of \<open>s\<close>.\<close>

definition spec_after_marker :: "jstring \<Rightarrow> jstring option" where
  "spec_after_marker s =
     (if startsWith s (ascii ''strongs:'') then Some (drop 8 s)
      else if startsWith s (ascii ''strong:'') then Some (drop 7 s)
      else None)"

text \<open>A match at the start of \<open>s\<close>: an optional marker, then a token.\<close>

definition spec_match_at :: "jstring \<Rightarrow> (jstring \<times> jstring) option" where
  "spec_match_at s =
     (case spec_after_marker s of
        None \<Rightarrow> spec_token_at s
      | Some t \<Rightarrow> (case spec_token_at t of Some m \<Rightarrow> Some m | None \<Rightarrow> spec_token_at s))"

text \<open>
  The code of a token: its prefix letter in upper case, or \<open>H\<close> when it has none, and
  its digits read as a number and written without leading zeros.
\<close>

definition spec_code :: "jstring \<Rightarrow> jstring" where
  "spec_code token =
     (case token of
        [] \<Rightarrow> []
      | c # ds \<Rightarrow>
          if spec_prefix_letter c then toUpperCase c # decimal (digits_value ds)
          else 72 # decimal (digits_value token))"

text \<open>
  The codes of the matches in \<open>s\<close>, from left to right, each match starting where the
  one before it ended; nothing is removed from the list.
\<close>

function spec_strongs :: "jstring \<Rightarrow> jstring list" where
  "spec_strongs s =
     (case spec_match_at s of
        Some (token, rest) \<Rightarrow> spec_code token # spec_strongs rest
      | None \<Rightarrow> (case s of [] \<Rightarrow> [] | c # t \<Rightarrow> spec_strongs t))"
  by pat_completeness auto

lemma spec_token_at_shorter:
  "spec_token_at s = Some (token, rest) \<Longrightarrow> length rest < length s"
  by (cases s) (auto simp: spec_token_at_def split: if_splits)

lemma spec_match_at_shorter:
  "spec_match_at s = Some (token, rest) \<Longrightarrow> length rest < length s"
  by (auto simp: spec_match_at_def spec_after_marker_def
           split: option.splits if_splits dest!: spec_token_at_shorter)

termination spec_strongs
  by (relation "measure length") (auto dest: spec_match_at_shorter)

declare spec_strongs.simps [simp del]


section \<open>The parsed document\<close>

text \<open>
  \<open>parser.parse(xml)\<close> yields a tree of plain JavaScript values, typed \<open>unknown\<close> in
  the source: a string, an array, or an object whose keys are the child element names,
  the attribute names with the prefix \<open>@_\<close>, and \<open>#text\<close> for inline text.
  With the parser's default settings a text that reads as a number or a boolean is
  converted to one; \<open>JPrim\<close> stands for such a primitive and carries what the walk can
  observe of it: its truthiness and its \<open>String(...)\<close> rendering.  An object is the list
  of its entries in the order of \<open>Object.entries\<close>; a lookup takes the first entry of
  a key.
\<close>

datatype jsval =
    JStr jstring
  | JPrim bool jstring
  | JArr "jsval list"
  | JObj "(jstring \<times> jsval) list"

text \<open>Truthiness, as tested by \<open>if (v)\<close> and \<open>!v\<close>.\<close>

fun truthy :: "jsval \<Rightarrow> bool" where
  "truthy (JStr s) = (s \<noteq> [])"
| "truthy (JPrim b s) = b"
| "truthy (JArr xs) = True"
| "truthy (JObj es) = True"

text \<open>\<open>String(v)\<close>: an array renders as its elements joined by commas.\<close>

fun js_String :: "jsval \<Rightarrow> jstring" where
  "js_String (JStr s) = s"
| "js_String (JPrim b s) = s"
| "js_String (JArr xs) = join (ascii '','') (map js_String xs)"
| "js_String (JObj es) = ascii ''[object Object]''"

text \<open>
  \<open>elem[key] as string | undefined\<close> for an attribute key.  The parser is configured
  with its default \<open>parseAttributeValue: false\<close>, so an attribute is always a string;
  a value of another kind cannot stand under such a key and is read as absent.
\<close>

definition attr :: "(jstring \<times> jsval) list \<Rightarrow> jstring \<Rightarrow> jstring option" where
  "attr es key = (case map_of es key of Some (JStr s) \<Rightarrow> Some s | _ \<Rightarrow> None)"

text \<open>\<open>s || null\<close> and the test \<open>if (s)\<close> on an optional string: the empty string is falsy.\<close>

definition or_null :: "jstring option \<Rightarrow> jstring option" where
  "or_null x = (case x of None \<Rightarrow> None | Some s \<Rightarrow> if s = [] then None else Some s)"

text \<open>\<open>Array.isArray(v) ? v : [v]\<close>\<close>

definition as_array :: "jsval \<Rightarrow> jsval list" where
  "as_array v = (case v of JArr xs \<Rightarrow> xs | _ \<Rightarrow> [v])"


section \<open>Word entries\<close>

datatype variant = Ketiv | Qere

text \<open>The \<open>source\<close> object of a word: the raw attributes that were present.\<close>

record source_info =
  src_lemma :: "jstring option"
  src_morph :: "jstring option"
  src_type :: "jstring option"

text \<open>
  \<open>interface WordEntry\<close>.  An optional field that is absent (\<open>undefined\<close>) or
  \<open>null\<close> is \<open>None\<close>.  The fields \<open>text\<close> and \<open>lemma\<close> carry a prime, their names
  being keywords of Isabelle.  \<open>metadata\<close> is an object, given by its entries like the
  objects of the parsed document.
\<close>

record word_entry =
  position :: nat
  text' :: jstring
  lemma' :: "jstring option"
  morph :: "jstring option"
  strongs :: "jstring list option"
  variant :: "variant option"
  metadata :: "(jstring \<times> jsval) list option"
  source :: "source_info option"

text \<open>
  The variables that \<open>extractWords\<close> closes over and mutates: the array \<open>words\<close>,
  the counter \<open>pos\<close> and the flag \<open>isInsideQere\<close>.
\<close>

record wstate =
  words :: "word_entry list"
  pos :: nat
  isInsideQere :: bool

text \<open>The state at the start of a verse.\<close>

definition init_state :: wstate where
  "init_state = \<lparr>words = [], pos = 1, isInsideQere = False\<rparr>"

text \<open>
  The loop over the tokens of a text leaf: a maqqef is skipped, every other token is
  pushed with \<open>position: pos++\<close>, no lemma, no morph, an empty \<open>metadata\<close> and an empty
  \<open>source\<close>.
\<close>

fun push_leaf_words :: "jstring list \<Rightarrow> wstate \<Rightarrow> wstate" where
  "push_leaf_words [] st = st"
| "push_leaf_words (word # ws) st =
     (if word = MAQQEF then push_leaf_words ws st
      else push_leaf_words ws
             (st\<lparr>words := words st @
                    [\<lparr>position = pos st, text' = word, lemma' = None, morph = None,
                      strongs = None, variant = None, metadata = Some [],
                      source = Some \<lparr>src_lemma = None, src_morph = None, src_type = None\<rparr>\<rparr>],
                  pos := pos st + 1\<rparr>))"

text \<open>The branch \<open>typeof content === 'string'\<close> of \<open>extractWords\<close>, for a truthy string.\<close>

definition extract_leaf :: "jstring \<Rightarrow> wstate \<Rightarrow> wstate" where
  "extract_leaf content st =
     (let cleanText = trim (remove_slashes content)
      in if cleanText \<noteq> [] then push_leaf_words (tokens cleanText) st else st)"

text \<open>
  The loop over the pieces of an element's inline text.  \<open>elemType\<close>, \<open>lemma\<close> and
  \<open>morph_attr\<close> are the raw attributes, \<open>strongs_list\<close> the result of
  \<open>extractStrongs\<close> (the locals \<open>morph\<close> and \<open>strongs\<close> of the source; likewise
  \<open>variant_tag\<close> and \<open>source_obj\<close> for \<open>variant\<close> and \<open>source\<close>).
\<close>

fun push_elem_words ::
  "jstring option \<Rightarrow> jstring option \<Rightarrow> jstring option \<Rightarrow> jstring list \<Rightarrow>
   jstring list \<Rightarrow> wstate \<Rightarrow> wstate"
where
  "push_elem_words elemType lemma morph_attr strongs_list [] st = st"
| "push_elem_words elemType lemma morph_attr strongs_list (piece # ps) st =
     (if piece = MAQQEF then push_elem_words elemType lemma morph_attr strongs_list ps st
      else
        let variant_tag = (if elemType = Some (ascii ''x-ketiv'') then Some Ketiv
                       else if isInsideQere st then Some Qere
                       else None);
            source_obj = \<lparr>src_lemma = or_null lemma, src_morph = or_null morph_attr,
                      src_type = or_null elemType\<rparr>
        in push_elem_words elemType lemma morph_attr strongs_list ps
             (st\<lparr>words := words st @
                    [\<lparr>position = pos st, text' = piece, lemma' = or_null lemma,
                      morph = or_null morph_attr,
                      strongs = (if strongs_list \<noteq> [] then Some strongs_list else None),
                      variant = variant_tag, metadata = None,
                      source = (if src_lemma source_obj = None \<and> src_morph source_obj = None
                                   \<and> src_type source_obj = None
                                then None else Some source_obj)\<rparr>],
                  pos := pos st + 1\<rparr>))"

text \<open>
  The block \<open>if (elem['#text']) { ... }\<close> of \<open>extractWords\<close>.  The result is \<open>None\<close>
  when the block leaves \<open>extractWords\<close> through its \<open>return\<close>: the element is a
  segment whose type starts with \<open>x-\<close> and is neither \<open>x-ketiv\<close> nor \<open>x-qere\<close>.
\<close>

definition extract_inline :: "(jstring \<times> jsval) list \<Rightarrow> wstate \<Rightarrow> wstate option" where
  "extract_inline elem st =
     (case map_of elem (ascii ''#text'') of
        None \<Rightarrow> Some st
      | Some t \<Rightarrow>
          if \<not> truthy t then Some st
          else
            let elemType = attr elem (ascii ''@_type'')
            in if or_null elemType \<noteq> None \<and> startsWith (the elemType) (ascii ''x-'')
                  \<and> elemType \<noteq> Some (ascii ''x-ketiv'') \<and> elemType \<noteq> Some (ascii ''x-qere'')
               then None
               else
                 let rawText = js_String t;
                     text = trim (remove_slashes rawText);
                     lemma = attr elem (ascii ''@_lemma'');
                     morph_attr = attr elem (ascii ''@_morph'')
                 in if text \<noteq> []
                    then Some (push_elem_words elemType lemma morph_attr
                                 (extractStrongs (or_null lemma)) (tokens text) st)
                    else Some st)"


section \<open>extractWords\<close>

text \<open>Two facts about sizes, for the termination of the walk.\<close>

lemma map_of_size:
  "map_of es key = Some v \<Longrightarrow> size v + 2 \<le> size_list (size_prod (\<lambda>_. 0) size) es"
  by (induction es) (auto split: if_splits)

lemma as_array_size: "size_list size (as_array v) \<le> size v + 1"
  by (cases v) (simp_all add: as_array_def)

text \<open>
  \<open>extractWords(content)\<close>, with the state it mutates passed through.  The loops of the
  source are functions on the list they run over:
  \<^item> \<open>extractWords_items\<close>: \<open>for (const item of content)\<close> on an array;
  \<^item> \<open>extractWords_entries\<close>: \<open>for (const [key, value] of Object.entries(elem))\<close>;
  \<^item> \<open>extractWords_rdgs\<close>: \<open>for (const rdg of rdgArray)\<close>, which the source has twice,
    under the key \<open>rdg\<close> and inside a note, with the same body;
  \<^item> \<open>extractWords_notes\<close>: \<open>for (const note of noteArray)\<close>.

  A falsy value (the empty string, a falsy primitive) returns at once; a truthy
  primitive is neither string, array nor object and falls through every branch.  In
  the two inner loops \<open>x && typeof x === 'object'\<close> also holds of an array, but an array
  has neither a \<open>@_type\<close> nor a \<open>rdg\<close> property, so only an object gets any further.
\<close>

function extractWords :: "jsval \<Rightarrow> wstate \<Rightarrow> wstate"
  and extractWords_items :: "jsval list \<Rightarrow> wstate \<Rightarrow> wstate"
  and extractWords_entries :: "(jstring \<times> jsval) list \<Rightarrow> wstate \<Rightarrow> wstate"
  and extractWords_rdgs :: "jsval list \<Rightarrow> wstate \<Rightarrow> wstate"
  and extractWords_notes :: "jsval list \<Rightarrow> wstate \<Rightarrow> wstate"
where
  "extractWords (JStr content) st = (if content = [] then st else extract_leaf content st)"
| "extractWords (JPrim b s) st = st"
| "extractWords (JArr content) st = extractWords_items content st"
| "extractWords (JObj elem) st =
     (case extract_inline elem st of
        None \<Rightarrow> st
      | Some st' \<Rightarrow> extractWords_entries elem st')"
| "extractWords_items [] st = st"
| "extractWords_items (item # items) st = extractWords_items items (extractWords item st)"
| "extractWords_entries [] st = st"
| "extractWords_entries ((key, value) # es) st =
     (if key = ascii ''catchWord'' then extractWords_entries es st
      else if key = ascii ''rdg'' then
        extractWords_entries es (extractWords_rdgs (as_array value) st)
      else if key = ascii ''note'' then
        extractWords_entries es (extractWords_notes (as_array value) st)
      else if \<not> startsWith key (ascii ''@_'') \<and> key \<noteq> ascii ''#text'' then
        extractWords_entries es (extractWords value st)
      else extractWords_entries es st)"
| "extractWords_rdgs [] st = st"
| "extractWords_rdgs (rdg # rdgs) st =
     (case rdg of
        JObj r \<Rightarrow>
          if attr r (ascii ''@_type'') = Some (ascii ''x-qere'') then
            let prevIsInsideQere = isInsideQere st;
                st' = extractWords rdg (st\<lparr>isInsideQere := True\<rparr>)
            in extractWords_rdgs rdgs (st'\<lparr>isInsideQere := prevIsInsideQere\<rparr>)
          else extractWords_rdgs rdgs st
      | _ \<Rightarrow> extractWords_rdgs rdgs st)"
| "extractWords_notes [] st = st"
| "extractWords_notes (note # notes) st =
     (case note of
        JObj noteObj \<Rightarrow>
          (case map_of noteObj (ascii ''rdg'') of
             None \<Rightarrow> extractWords_notes notes st
           | Some rdgValue \<Rightarrow>
               if truthy rdgValue
               then extractWords_notes notes (extractWords_rdgs (as_array rdgValue) st)
               else extractWords_notes notes st)
      | _ \<Rightarrow> extractWords_notes notes st)"
  by pat_completeness auto

termination
  apply (relation "measure (\<lambda>x. case x of
            Inl (Inl (v, st)) \<Rightarrow> size v
          | Inl (Inr (xs, st)) \<Rightarrow> size_list size xs
          | Inr (Inl (es, st)) \<Rightarrow> size_list (size_prod (\<lambda>_. 0) size) es
          | Inr (Inr (Inl (xs, st))) \<Rightarrow> size_list size xs
          | Inr (Inr (Inr (xs, st))) \<Rightarrow> size_list size xs)")
  apply (simp_all add: less_Suc_eq_le)
  subgoal for key v es using as_array_size [of v] by linarith
  subgoal for key v es using as_array_size [of v] by linarith
  subgoal for n ns noteObj rdgValue
    using as_array_size [of rdgValue] map_of_size [of noteObj "ascii ''rdg''" rdgValue]
    by linarith
  done

declare extractWords.simps [simp del]


section \<open>parseOsis\<close>

text \<open>\<open>s.split('.')\<close>, for a separator of one code unit.\<close>

fun split_on :: "nat \<Rightarrow> jstring \<Rightarrow> jstring list" where
  "split_on sep [] = [[]]"
| "split_on sep (x # xs) =
     (if x = sep then [] # split_on sep xs
      else case split_on sep xs of
             [] \<Rightarrow> [[x]]
           | p # ps \<Rightarrow> (x # p) # ps)"

text \<open>
  The numbers that \<open>parseInt\<close> returns.  \<open>Num i\<close> is the integer \<open>i\<close>, of magnitude at
  most \<open>2^53\<close> and so a double with no rounding (minus zero is not told apart from
  zero); \<open>Inexact\<close> stands for the result on digits of a greater value, a double near
  that value or an infinity, of which nothing more is said.
\<close>

datatype js_number = NaN | Num int | Inexact

text \<open>
  \<open>parseInt(s, 10)\<close>: leading white space is skipped, a sign is read, then the longest
  run of digits.
\<close>

definition parseInt :: "jstring \<Rightarrow> js_number" where
  "parseInt s =
     (let t = dropWhile is_space s;
          negative = (case t of [] \<Rightarrow> False | c # _ \<Rightarrow> c = 45);
          u = (case t of [] \<Rightarrow> [] | c # r \<Rightarrow> if c = 45 \<or> c = 43 then r else t);
          ds = takeWhile is_digit u
      in if ds = [] then NaN
         else if digits_value ds \<le> 2 ^ 53
         then Num (if negative then - int (digits_value ds) else int (digits_value ds))
         else Inexact)"

text \<open>
  \<open>interface ParsedVerse\<close>; its fields \<open>text\<close> and \<open>words\<close> are \<open>verse_text\<close> and
  \<open>verse_words\<close>, and \<open>chapter\<close> carries a prime.
\<close>

record parsed_verse =
  book :: jstring
  chapter' :: js_number
  number :: js_number
  verse_text :: jstring
  verse_words :: "word_entry list"

text \<open>
  The loop over the entries of the verse element itself:
  \<open>for (const [key, value] of Object.entries(record)) if (!key.startsWith('@_')) extractWords(value)\<close>.
\<close>

fun extractWords_verse :: "(jstring \<times> jsval) list \<Rightarrow> wstate \<Rightarrow> wstate" where
  "extractWords_verse [] st = st"
| "extractWords_verse ((key, value) # es) st =
     (if \<not> startsWith key (ascii ''@_'') then extractWords_verse es (extractWords value st)
      else extractWords_verse es st)"

text \<open>
  The block of \<open>findVerses\<close> that handles a verse element: \<open>record\<close> is an object,
  \<open>results\<close> the array of verses found so far.  A record is pushed only if the element
  has a non-empty string \<open>@_osisID\<close> of three dot-separated parts and its walk has
  produced at least one word.
\<close>

definition verse_block :: "(jstring \<times> jsval) list \<Rightarrow> parsed_verse list \<Rightarrow> parsed_verse list" where
  "verse_block record results =
     (case map_of record (ascii ''@_osisID'') of
        Some (JStr osisId) \<Rightarrow>
          if osisId = [] then results
          else
            let parts = split_on 46 osisId
            in if length parts = 3 then
                 let ws = words (extractWords_verse record init_state)
                 in if length ws > 0 then
                      results @
                        [\<lparr>book = parts ! 0, chapter' = parseInt (parts ! 1),
                          number = parseInt (parts ! 2),
                          verse_text = join (ascii '' '') (map text' ws),
                          verse_words = ws\<rparr>]
                    else results
               else results
      | _ \<Rightarrow> results)"

text \<open>
  \<open>findVerses(obj, results)\<close>, with \<open>findVerses_items\<close> for the loop over an array and
  \<open>findVerses_values\<close> for the loop over \<open>Object.values(record)\<close>.
\<close>

fun findVerses :: "jsval \<Rightarrow> parsed_verse list \<Rightarrow> parsed_verse list"
  and findVerses_items :: "jsval list \<Rightarrow> parsed_verse list \<Rightarrow> parsed_verse list"
  and findVerses_values :: "(jstring \<times> jsval) list \<Rightarrow> parsed_verse list \<Rightarrow> parsed_verse list"
where
  "findVerses (JStr s) results = results"
| "findVerses (JPrim b s) results = results"
| "findVerses (JArr obj) results = findVerses_items obj results"
| "findVerses (JObj record) results = findVerses_values record (verse_block record results)"
| "findVerses_items [] results = results"
| "findVerses_items (item # items) results = findVerses_items items (findVerses item results)"
| "findVerses_values [] results = results"
| "findVerses_values ((key, value) # es) results =
     findVerses_values es (findVerses value results)"

text \<open>
  \<open>parseOsis\<close>, from the document that \<open>parser.parse(xml)\<close> returns; the XML parser is
  a library outside the repository.
\<close>

definition parseOsis :: "jsval \<Rightarrow> parsed_verse list" where
  "parseOsis doc = findVerses doc []"


section \<open>saveVerse\<close>

text \<open>The test of \<open>isTextualCriticalNote\<close> for a code unit in the range U+0590 to U+05FF.\<close>

definition hasHebrew :: "jstring \<Rightarrow> bool" where
  "hasHebrew s = list_ex (\<lambda>c. 0x590 \<le> c \<and> c \<le> 0x5FF) s"

definition isTextualCriticalNote :: "word_entry \<Rightarrow> bool" where
  "isTextualCriticalNote w =
     (if or_null (lemma' w) \<noteq> None \<or> or_null (morph w) \<noteq> None then False
      else \<not> hasHebrew (text' w))"

text \<open>The letters compared with are pe (U+05E4) and samekh (U+05E1).\<close>

definition isParagraphMarker :: "word_entry \<Rightarrow> bool" where
  "isParagraphMarker w =
     (or_null (lemma' w) = None \<and> or_null (morph w) = None
      \<and> (text' w = [0x5E4] \<or> text' w = [0x5E1]))"

text \<open>\<open>obj[key] = v\<close> on an object given by its entries.\<close>

fun obj_set :: "jstring \<Rightarrow> jsval \<Rightarrow> (jstring \<times> jsval) list \<Rightarrow> (jstring \<times> jsval) list" where
  "obj_set key v [] = [(key, v)]"
| "obj_set key v ((k, x) # es) = (if k = key then (k, v) # es else (k, x) # obj_set key v es)"

text \<open>The value \<open>true\<close>.\<close>

definition js_true :: jsval where
  "js_true = JPrim True (ascii ''true'')"

text \<open>
  The body of the loop of \<open>saveVerse\<close> for a word that is kept: the copy of its
  \<open>metadata\<close> (\<open>{ ...w.metadata }\<close>, empty when the word has none), flagged
  \<open>isPrefixOnly\<close> when the word has a lemma without a digit, and the entry that is
  pushed, at position \<open>pos_next\<close>.
\<close>

definition saved_entry :: "word_entry \<Rightarrow> nat \<Rightarrow> word_entry" where
  "saved_entry w pos_next =
     (let copied = (case metadata w of None \<Rightarrow> [] | Some m \<Rightarrow> m);
          meta = (if or_null (lemma' w) \<noteq> None \<and> \<not> list_ex is_digit (the (lemma' w))
                  then obj_set (ascii ''isPrefixOnly'') js_true copied
                  else copied)
      in \<lparr>position = pos_next, text' = text' w, lemma' = lemma' w, morph = morph w,
          strongs = strongs w, variant = variant w, metadata = Some meta,
          source = source w\<rparr>)"

text \<open>
  The loop of \<open>saveVerse\<close> over \<open>verse.words\<close>; \<open>filteredWords\<close> and \<open>pos_next\<close> are
  the array and the counter \<open>position\<close> of the source.
\<close>

fun saveVerse_loop :: "word_entry list \<Rightarrow> word_entry list \<Rightarrow> nat \<Rightarrow> word_entry list" where
  "saveVerse_loop [] filteredWords pos_next = filteredWords"
| "saveVerse_loop (w # ws) filteredWords pos_next =
     (if isTextualCriticalNote w then saveVerse_loop ws filteredWords pos_next
      else if isParagraphMarker w then saveVerse_loop ws filteredWords pos_next
      else saveVerse_loop ws (filteredWords @ [saved_entry w pos_next]) (pos_next + 1))"

text \<open>\<open>interface VerseData\<close>, the document that \<open>saveVerse\<close> writes.\<close>

record verse_data =
  data_text :: jstring
  data_words :: "word_entry list"

text \<open>
  \<open>saveVerse(verse)\<close>: the value of \<open>data\<close> that is serialised to the verse's file.
  Creating the directory and writing the file are not modelled.
\<close>

definition saveVerse :: "parsed_verse \<Rightarrow> verse_data" where
  "saveVerse verse =
     (let wordEntries = saveVerse_loop (verse_words verse) [] 1;
          text = join (ascii '' '') (map text' wordEntries)
      in \<lparr>data_text = text, data_words = wordEntries\<rparr>)"


section \<open>The sample verses of the source\<close>

text \<open>
  \<open>GEN_8_17_XML\<close> and \<open>EXOD_20_2_XML\<close> of the source, as trees.  The XML parser is
  configured with \<open>preserveOrder: false\<close>, \<open>trimValues: false\<close>, the attribute prefix
  \<open>@_\<close> and the text key \<open>#text\<close>: the children of an element are grouped by name in the
  order of their first occurrence, equal names forming an array; the pieces of text
  between the children, white space included, are concatenated under \<open>#text\<close>; an
  element with nothing but text and no attribute is a string.  So the twenty-one
  \<open>w\<close> elements of Genesis 8:17 come first, the ketiv among them, and the note with
  the qere reading after them.
\<close>

definition GEN_8_17 :: jsval where
  "GEN_8_17 =
     JObj [(ascii ''w'',
              JArr [JObj [(ascii ''#text'', JStr [0x5DB, 0x5B8, 0x5BC, 0x5DC]),
                          (ascii ''@_lemma'', JStr (ascii ''3605'')),
                          (ascii ''@_morph'', JStr (ascii ''HNcmsc''))],
                    JObj [(ascii ''#text'',
                             JStr [0x5D4, 0x5B7, 0x5D7, 0x5B7, 0x5D9, 0x5B8, 0x5BC, 0x5D4]),
                          (ascii ''@_lemma'', JStr (ascii ''d/2416 c'')),
                          (ascii ''@_morph'', JStr (ascii ''HTd/Ncfsa''))],
                    JObj [(ascii ''#text'', JStr [0x5D0, 0x5B2, 0x5E9, 0x5B6, 0x5C1, 0x5E8]),
                          (ascii ''@_lemma'', JStr (ascii ''834 a'')),
                          (ascii ''@_morph'', JStr (ascii ''HTr''))],
                    JObj [(ascii ''#text'', JStr [0x5D0, 0x5B4, 0x5EA, 0x5B0, 0x5BC, 0x5DA, 0x5B8]),
                          (ascii ''@_lemma'', JStr (ascii ''854'')),
                          (ascii ''@_morph'', JStr (ascii ''HR/Sp2ms''))],
                    JObj [(ascii ''#text'', JStr [0x5DE, 0x5B4, 0x5DB, 0x5B8, 0x5BC, 0x5DC]),
                          (ascii ''@_lemma'', JStr (ascii ''m/3605'')),
                          (ascii ''@_morph'', JStr (ascii ''HR/Ncmsc''))],
                    JObj [(ascii ''#text'', JStr [0x5D1, 0x5B8, 0x5BC, 0x5E9, 0x5B8, 0x5C2, 0x5E8]),
                          (ascii ''@_lemma'', JStr (ascii ''1320'')),
                          (ascii ''@_morph'', JStr (ascii ''HNcmsa''))],
                    JObj [(ascii ''#text'', JStr [0x5D1, 0x5B8, 0x5BC, 0x5E2, 0x5D5, 0x5B9, 0x5E3]),
                          (ascii ''@_lemma'', JStr (ascii ''b/5775'')),
                          (ascii ''@_morph'', JStr (ascii ''HRd/Ncmsa''))],
                    JObj [(ascii ''#text'',
                             JStr [0x5D5, 0x5BC, 0x5D1, 0x5B7, 0x5D1, 0x5B0, 0x5BC, 0x5D4, 0x5B5,
                                   0x5DE, 0x5B8, 0x5D4]),
                          (ascii ''@_lemma'', JStr (ascii ''c/b/929'')),
                          (ascii ''@_morph'', JStr (ascii ''HC/Rd/Ncfsa''))],
                    JObj [(ascii ''#text'', JStr [0x5D5, 0x5BC, 0x5D1, 0x5B0, 0x5DB, 0x5B8, 0x5DC]),
                          (ascii ''@_lemma'', JStr (ascii ''c/b/3605'')),
                          (ascii ''@_morph'', JStr (ascii ''HC/R/Ncmsc''))],
                    JObj [(ascii ''#text'',
                             JStr [0x5D4, 0x5B8, 0x5E8, 0x5B6, 0x5DE, 0x5B6, 0x5E9, 0x5C2]),
                          (ascii ''@_lemma'', JStr (ascii ''d/7431'')),
                          (ascii ''@_morph'', JStr (ascii ''HTd/Ncmsa''))],
                    JObj [(ascii ''#text'',
                             JStr [0x5D4, 0x5B8, 0x5E8, 0x5B9, 0x5DE, 0x5B5, 0x5E9, 0x5C2]),
                          (ascii ''@_lemma'', JStr (ascii ''d/7430'')),
                          (ascii ''@_morph'', JStr (ascii ''HTd/Vqrmsa''))],
                    JObj [(ascii ''#text'', JStr [0x5E2, 0x5B7, 0x5DC]),
                          (ascii ''@_lemma'', JStr (ascii ''5921 a'')),
                          (ascii ''@_morph'', JStr (ascii ''HR''))],
                    JObj [(ascii ''#text'', JStr [0x5D4, 0x5B8, 0x5D0, 0x5B8, 0x5E8, 0x5B6, 0x5E5]),
                          (ascii ''@_lemma'', JStr (ascii ''d/776'')),
                          (ascii ''@_morph'', JStr (ascii ''HTd/Ncbsa''))],
                    JObj [(ascii ''#text'', JStr [0x5D4, 0x5D5, 0x5E6, 0x5D0]),
                          (ascii ''@_type'', JStr (ascii ''x-ketiv'')),
                          (ascii ''@_lemma'', JStr (ascii ''3318'')),
                          (ascii ''@_morph'', JStr (ascii ''HVhv2ms''))],
                    JObj [(ascii ''#text'', JStr [0x5D0, 0x5B4, 0x5EA, 0x5B8, 0x5BC, 0x5DA, 0x5B0]),
                          (ascii ''@_lemma'', JStr (ascii ''854'')),
                          (ascii ''@_morph'', JStr (ascii ''HR/Sp2fs''))],
                    JObj [(ascii ''#text'',
                             JStr [0x5D5, 0x5B0, 0x5E9, 0x5B8, 0x5C1, 0x5E8, 0x5B0, 0x5E6, 0x5D5,
                                   0x5BC]),
                          (ascii ''@_lemma'', JStr (ascii ''c/8317'')),
                          (ascii ''@_morph'', JStr (ascii ''HC/Vqq3cp''))],
                    JObj [(ascii ''#text'', JStr [0x5D1, 0x5B8, 0x5D0, 0x5B8, 0x5E8, 0x5B6, 0x5E5]),
                          (ascii ''@_lemma'', JStr (ascii ''b/776'')),
                          (ascii ''@_morph'', JStr (ascii ''HRd/Ncbsa''))],
                    JObj [(ascii ''#text'', JStr [0x5D5, 0x5BC, 0x5E4, 0x5B8, 0x5E8, 0x5D5, 0x5BC]),
                          (ascii ''@_lemma'', JStr (ascii ''c/6509'')),
                          (ascii ''@_morph'', JStr (ascii ''HC/Vqq3cp''))],
                    JObj [(ascii ''#text'', JStr [0x5D5, 0x5B0, 0x5E8, 0x5B8, 0x5D1, 0x5D5, 0x5BC]),
                          (ascii ''@_lemma'', JStr (ascii ''c/7235 a'')),
                          (ascii ''@_morph'', JStr (ascii ''HC/Vqq3cp''))],
                    JObj [(ascii ''#text'', JStr [0x5E2, 0x5B7, 0x5DC]),
                          (ascii ''@_lemma'', JStr (ascii ''5921 a'')),
                          (ascii ''@_morph'', JStr (ascii ''HR''))],
                    JObj [(ascii ''#text'', JStr [0x5D4, 0x5B8, 0x5D0, 0x5B8, 0x5E8, 0x5B6, 0x5E5]),
                          (ascii ''@_lemma'', JStr (ascii ''d/776'')),
                          (ascii ''@_morph'', JStr (ascii ''HTd/Ncbsa''))]]),
           (ascii ''note'',
              JObj [(ascii ''catchWord'', JStr [0x5D4, 0x5D5, 0x5E6, 0x5D0]),
                    (ascii ''rdg'',
                       JObj [(ascii ''w'',
                                JObj [(ascii ''#text'',
                                         JStr [0x5D4, 0x5B7, 0x5D9, 0x5B0, 0x5E6, 0x5B5, 0x5D0]),
                                      (ascii ''@_lemma'', JStr (ascii ''3318'')),
                                      (ascii ''@_morph'', JStr (ascii ''HVhv2ms''))]),
                             (ascii ''#text'',
                                JStr [10, 32, 32, 32, 32, 32, 32, 10, 32, 32, 32, 32]),
                             (ascii ''@_type'', JStr (ascii ''x-qere''))]),
                    (ascii ''#text'', JStr [10, 32, 32, 32, 32, 10, 32, 32, 32, 32, 10, 32, 32]),
                    (ascii ''@_type'', JStr (ascii ''variant''))]),
           (ascii ''#text'',
              JStr [10, 32, 32, 10, 32, 32, 10, 32, 32, 10, 32, 32, 10, 32, 32, 10, 32, 32, 10,
                    32, 32, 10, 32, 32, 10, 32, 32, 10, 32, 32, 10, 32, 32, 10, 32, 32, 10, 32,
                    32, 10, 32, 32, 10, 32, 32, 10, 32, 32, 10, 32, 32, 10, 32, 32, 10, 32, 32,
                    10, 32, 32, 10, 32, 32, 10, 32, 32, 10]),
           (ascii ''@_osisID'', JStr (ascii ''Gen.8.17''))]"

definition EXOD_20_2 :: jsval where
  "EXOD_20_2 =
     JObj [(ascii ''w'',
              JArr [JObj [(ascii ''#text'', JStr [0x5D0, 0x5B8, 0x5E0, 0x5B9, 0x5DB, 0x5B4, 0x5D9]),
                          (ascii ''@_lemma'', JStr (ascii ''595'')),
                          (ascii ''@_morph'', JStr (ascii ''HPp1cs''))],
                    JObj [(ascii ''#text'', JStr [0x5D9, 0x5B0, 0x5D4, 0x5D5, 0x5B8, 0x5D4]),
                          (ascii ''@_lemma'', JStr (ascii ''3068'')),
                          (ascii ''@_morph'', JStr (ascii ''HNp''))],
                    JObj [(ascii ''#text'',
                             JStr [0x5D0, 0x5B1, 0x5DC, 0x5B9, 0x5D4, 0x5B6, 0x5D9, 0x5DA, 0x5B8]),
                          (ascii ''@_lemma'', JStr (ascii ''430'')),
                          (ascii ''@_morph'', JStr (ascii ''HNcmpc/Sp2ms''))],
                    JObj [(ascii ''#text'', JStr [0x5D0, 0x5B2, 0x5E9, 0x5B6, 0x5C1, 0x5E8]),
                          (ascii ''@_lemma'', JStr (ascii ''834 a'')),
                          (ascii ''@_morph'', JStr (ascii ''HTr''))],
                    JObj [(ascii ''#text'',
                             JStr [0x5D4, 0x5D5, 0x5B9, 0x5E6, 0x5B5, 0x5D0, 0x5EA, 0x5B4, 0x5D9,
                                   0x5DA, 0x5B8]),
                          (ascii ''@_lemma'', JStr (ascii ''3318'')),
                          (ascii ''@_morph'', JStr (ascii ''HVhp1cs/Sp2ms''))],
                    JObj [(ascii ''#text'', JStr [0x5DE, 0x5B5, 0x5D0, 0x5B6, 0x5E8, 0x5B6, 0x5E5]),
                          (ascii ''@_lemma'', JStr (ascii ''m/776'')),
                          (ascii ''@_morph'', JStr (ascii ''HR/Ncbsc''))],
                    JObj [(ascii ''#text'',
                             JStr [0x5DE, 0x5B4, 0x5E6, 0x5B0, 0x5E8, 0x5B7, 0x5D9, 0x5B4, 0x5DD]),
                          (ascii ''@_lemma'', JStr (ascii ''4714'')),
                          (ascii ''@_morph'', JStr (ascii ''HNp''))],
                    JObj [(ascii ''#text'', JStr [0x5DE, 0x5B4, 0x5D1, 0x5B5, 0x5BC, 0x5D9, 0x5EA]),
                          (ascii ''@_lemma'', JStr (ascii ''m/1004 b'')),
                          (ascii ''@_morph'', JStr (ascii ''HR/Ncmsc''))],
                    JObj [(ascii ''#text'',
                             JStr [0x5E2, 0x5B2, 0x5D1, 0x5B8, 0x5D3, 0x5B4, 0x5D9, 0x5DD]),
                          (ascii ''@_lemma'', JStr (ascii ''5650'')),
                          (ascii ''@_morph'', JStr (ascii ''HNcmpa''))]]),
           (ascii ''note'',
              JArr [JObj [(ascii ''catchWord'',
                             JStr [0x5D0, 0x5B8, 0x5E0, 0x5B9, 0x5DB, 0x5B4, 0x5D9]),
                          (ascii ''rdg'',
                             JObj [(ascii ''#text'',
                                      JStr [0x5D0, 0x5B8, 0x5E0, 0x5B9, 0x5DB, 0x5B4, 0x5D9]),
                                   (ascii ''@_type'', JStr (ascii ''x-accent''))]),
                          (ascii ''@_type'', JStr (ascii ''alternative''))],
                    JObj [(ascii ''catchWord'',
                             JStr [0x5D0, 0x5B1, 0x5DC, 0x5B9, 0x5D4, 0x5B6, 0x5D9, 0x5DA, 0x5B8]),
                          (ascii ''rdg'',
                             JObj [(ascii ''#text'',
                                      JStr [0x5D0, 0x5B1, 0x5DC, 0x5B9, 0x5D4, 0x5B6, 0x5D9,
                                            0x5DA, 0x5B8]),
                                   (ascii ''@_type'', JStr (ascii ''x-accent''))]),
                          (ascii ''@_type'', JStr (ascii ''alternative''))],
                    JObj [(ascii ''catchWord'',
                             JStr [0x5DE, 0x5B4, 0x5D1, 0x5B5, 0x5BC, 0x5D9, 0x5EA]),
                          (ascii ''rdg'',
                             JObj [(ascii ''#text'',
                                      JStr [0x5DE, 0x5B4, 0x5D1, 0x5B5, 0x5BC, 0x5D9, 0x5EA]),
                                   (ascii ''@_type'', JStr (ascii ''x-accent''))]),
                          (ascii ''@_type'', JStr (ascii ''alternative''))],
                    JObj [(ascii ''catchWord'',
                             JStr [0x5E2, 0x5B2, 0x5D1, 0x5B8, 0x5D3, 0x5B4, 0x5D9, 0x5DD]),
                          (ascii ''rdg'',
                             JObj [(ascii ''#text'',
                                      JStr [0x5E2, 0x5B2, 0x5D1, 0x5B8, 0x5D3, 0x5B4, 0x5D9,
                                            0x5DD]),
                                   (ascii ''@_type'', JStr (ascii ''x-accent''))]),
                          (ascii ''@_type'', JStr (ascii ''alternative''))]]),
           (ascii ''#text'',
              JStr [10, 32, 32, 10, 32, 32, 10, 32, 32, 10, 32, 32, 10, 32, 32, 10, 32, 32, 10,
                    32, 32, 10, 32, 32, 10, 32, 32, 10, 32, 32, 10, 32, 32, 10, 32, 32, 10, 32,
                    32, 10]),
           (ascii ''@_osisID'', JStr (ascii ''Exod.20.2''))]"

text \<open>
  The documents around the two verses: the XML declaration and the verse.  The line
  break after the root element is outside every element and is not kept by the parser.
\<close>

definition xml_declaration :: jsval where
  "xml_declaration =
     JObj [(ascii ''@_version'', JStr (ascii ''1.0'')), (ascii ''@_encoding'', JStr (ascii ''UTF-8''))]"

definition GEN_8_17_doc :: jsval where
  "GEN_8_17_doc =
     JObj [(ascii ''?xml'', xml_declaration), (ascii ''verse'', GEN_8_17)]"

definition EXOD_20_2_doc :: jsval where
  "EXOD_20_2_doc =
     JObj [(ascii ''?xml'', xml_declaration), (ascii ''verse'', EXOD_20_2)]"


text \<open>
  The ketiv/qere pair of Genesis 8:17, piece by piece as it stands in \<open>GEN_8_17\<close>: the
  word element typed \<open>x-ketiv\<close>, the fourteenth of the \<open>w\<close> elements; the word element of
  the qere; the reading typed \<open>x-qere\<close> that holds it; and the note that holds the reading.
\<close>

definition GEN_8_17_ketiv :: "(jstring \<times> jsval) list" where
  "GEN_8_17_ketiv =
     [(ascii ''#text'', JStr [0x5D4, 0x5D5, 0x5E6, 0x5D0]),
      (ascii ''@_type'', JStr (ascii ''x-ketiv'')),
      (ascii ''@_lemma'', JStr (ascii ''3318'')),
      (ascii ''@_morph'', JStr (ascii ''HVhv2ms''))]"

definition GEN_8_17_qere :: "(jstring \<times> jsval) list" where
  "GEN_8_17_qere =
     [(ascii ''#text'', JStr [0x5D4, 0x5B7, 0x5D9, 0x5B0, 0x5E6, 0x5B5, 0x5D0]),
      (ascii ''@_lemma'', JStr (ascii ''3318'')),
      (ascii ''@_morph'', JStr (ascii ''HVhv2ms''))]"

definition GEN_8_17_rdg :: "(jstring \<times> jsval) list" where
  "GEN_8_17_rdg =
     [(ascii ''w'', JObj GEN_8_17_qere),
      (ascii ''#text'', JStr [10, 32, 32, 32, 32, 32, 32, 10, 32, 32, 32, 32]),
      (ascii ''@_type'', JStr (ascii ''x-qere''))]"

definition GEN_8_17_note :: "(jstring \<times> jsval) list" where
  "GEN_8_17_note =
     [(ascii ''catchWord'', JStr [0x5D4, 0x5D5, 0x5E6, 0x5D0]),
      (ascii ''rdg'', JObj GEN_8_17_rdg),
      (ascii ''#text'', JStr [10, 32, 32, 32, 32, 10, 32, 32, 32, 32, 10, 32, 32]),
      (ascii ''@_type'', JStr (ascii ''variant''))]"


text \<open>
  A raw verse for illustration: a word with a lemma, the footnote word \<open>We\<close> without
  lemma or morphology, the paragraph marker pe, and a second word with a lemma.
\<close>

definition example_word :: "jstring \<Rightarrow> jstring option \<Rightarrow> word_entry" where
  "example_word t l =
     \<lparr>position = 0, text' = t, lemma' = l, morph = None, strongs = None, variant = None,
      metadata = None, source = None\<rparr>"

definition example_verse :: parsed_verse where
  "example_verse =
     \<lparr>book = ascii ''Gen'', chapter' = Num 1, number = Num 1, verse_text = [],
      verse_words =
        [example_word [0x5D0, 0x5D1] (Some (ascii ''1'')),
         example_word (ascii ''We'') None,
         example_word [0x5E4] None,
         example_word [0x5DC, 0x5D4] (Some (ascii ''l''))]\<rparr>"


text \<open>
  A document for illustration, as the parser would return it.  Its first verse has a
  word element whose text holds a maqqef between two words, a word element with the
  prefix-only lemma \<open>l\<close>, a segment typed \<open>x-sof-pasuq\<close> and a note of prose; its second
  verse has nothing but a segment and a maqqef.
\<close>

definition example_verse_1 :: jsval where
  "example_verse_1 =
     JObj [(ascii ''w'',
            JArr [JObj [(ascii ''#text'', JStr [0x5E2, 0x5DC, 32, 0x5BE, 32, 0x5E4, 0x5E0, 0x5D9]),
                        (ascii ''@_lemma'', JStr (ascii ''5921 a'')),
                        (ascii ''@_morph'', JStr (ascii ''HR''))],
                  JObj [(ascii ''#text'', JStr [0x5DC, 0x5D4]),
                        (ascii ''@_lemma'', JStr (ascii ''l''))]]),
           (ascii ''seg'',
            JObj [(ascii ''#text'', JStr [0x5C3]), (ascii ''@_type'', JStr (ascii ''x-sof-pasuq''))]),
           (ascii ''note'',
            JObj [(ascii ''#text'', JStr (ascii ''We read'')), (ascii ''@_n'', JStr (ascii ''a''))]),
           (ascii ''#text'', JStr [10, 32, 32, 10]),
           (ascii ''@_osisID'', JStr (ascii ''Gen.1.2''))]"

definition example_verse_2 :: "(jstring \<times> jsval) list" where
  "example_verse_2 =
     [(ascii ''seg'',
       JObj [(ascii ''#text'', JStr [0x5BE]), (ascii ''@_type'', JStr (ascii ''x-maqqef''))]),
      (ascii ''#text'', JStr [10, 32, 0x5BE, 10]),
      (ascii ''@_osisID'', JStr (ascii ''Gen.1.3''))]"

definition example_doc :: jsval where
  "example_doc =
     JObj [(ascii ''osis'', JObj [(ascii ''verse'', JArr [example_verse_1, JObj example_verse_2])])]"


text \<open>
  Pieces for illustration: a variant note with a catch word, a qere reading and some
  prose of its own; an alternative-accent note as in Exodus 20:2; a word element; and a
  note of prose as the source text has them directly below a verse.
\<close>

definition example_qere_note :: jsval where
  "example_qere_note =
     JObj [(ascii ''catchWord'', JStr [0x5D4, 0x5D5, 0x5E6, 0x5D0]),
           (ascii ''rdg'',
              JObj [(ascii ''w'',
                       JObj [(ascii ''#text'', JStr [0x5D4, 0x5B7, 0x5D9, 0x5B0, 0x5E6, 0x5B5, 0x5D0]),
                             (ascii ''@_lemma'', JStr (ascii ''3318''))]),
                    (ascii ''@_type'', JStr (ascii ''x-qere''))]),
           (ascii ''#text'', JStr (ascii ''see the margin'')),
           (ascii ''@_type'', JStr (ascii ''variant''))]"

definition example_accent_note :: "(jstring \<times> jsval) list" where
  "example_accent_note =
     [(ascii ''catchWord'', JStr [0x5D0, 0x5B8, 0x5E0, 0x5B9, 0x5DB, 0x5B4, 0x5D9]),
      (ascii ''rdg'',
         JObj [(ascii ''#text'', JStr [0x5D0, 0x5B8, 0x5E0, 0x5B9, 0x5DB, 0x5B4, 0x5D9]),
               (ascii ''@_type'', JStr (ascii ''x-accent''))]),
      (ascii ''@_type'', JStr (ascii ''alternative''))]"

definition example_word_elem :: "(jstring \<times> jsval) list" where
  "example_word_elem =
     [(ascii ''#text'', JStr [0x5D0, 0x5B4, 0x5EA, 0x5B8, 0x5BC, 0x5DA, 0x5B0]),
      (ascii ''@_lemma'', JStr (ascii ''854''))]"

definition example_prose_note :: jsval where
  "example_prose_note =
     JObj [(ascii ''#text'', JStr (ascii ''We read'')), (ascii ''@_n'', JStr (ascii ''a''))]"


section \<open>extractStrongs and its specification\<close>

text \<open>
  The matcher, run on \<open>STRONGS_RE\<close> and on \<open>\d{1,5}\<close>, finds what the specification
  describes: first for the group, then for the marker in front of it, then for the
  whole pattern at one position, and last for the loop over the input.
\<close>

lemma spec_digit_run_prefix: "take (length (spec_digit_run u)) u = spec_digit_run u"
proof -
  have "u = spec_digit_run u @ (dropWhile is_digit (take 5 u) @ drop 5 u)"
    by (simp add: spec_digit_run_def) (metis append.assoc append_take_drop_id takeWhile_dropWhile_id)
  then show ?thesis
    by (metis append_eq_conv_conj)
qed

lemma spec_digit_run_length: "length (spec_digit_run u) \<le> length u"
proof -
  have "length (spec_digit_run u) \<le> length (take 5 u)"
    unfolding spec_digit_run_def by (rule length_takeWhile_le)
  then show ?thesis by simp
qed

lemma spec_prefix_letter_not_digit: "spec_prefix_letter c \<Longrightarrow> \<not> is_digit c"
  by (auto simp: spec_prefix_letter_def is_digit_def ascii_def)

lemma spec_digit_run_Cons: "\<not> is_digit c \<Longrightarrow> spec_digit_run (c # t) = []"
  by (simp add: spec_digit_run_def)

lemma group_match:
  "re_match (Group (Seq (Opt (OneOf [72, 71, 104, 103])) DIGITS_RE)) s cap
       (\<lambda>rest cap. Some (rest, cap))
     = (case spec_token_at s of None \<Rightarrow> None | Some (token, rest) \<Rightarrow> Some (rest, Some token))"
proof -
  let ?K = "\<lambda>s' cap'. Some (s', Some (take (length s - length s') s)) :: (jstring \<times> jstring option) option"
  have d: "\<And>u c. re_match DIGITS_RE u c ?K
             = (if spec_digit_run u \<noteq> [] then ?K (drop (length (spec_digit_run u)) u) c else None)"
    by (auto simp add: DIGITS_RE_def re_match_digits spec_digit_run_def Let_def Suc_le_eq)
  show ?thesis
  proof (cases s)
    case Nil
    then show ?thesis
      using d [of "[]" cap] by (simp add: spec_token_at_def spec_digit_run_def)
  next
    case (Cons c t)
    have l: "spec_prefix_letter c = (c \<in> set [72, 71, 104, 103])"
      by (simp add: spec_prefix_letter_def ascii_def)
    have cap_t: "take (length s - length (drop (length (spec_digit_run t)) t)) s = c # spec_digit_run t"
      using spec_digit_run_length [of t] spec_digit_run_prefix [of t] Cons
      by (simp add: Suc_diff_le)
    have cap_s: "take (length s - length (drop (length (spec_digit_run s)) s)) s = spec_digit_run s"
      using spec_digit_run_length [of s] spec_digit_run_prefix [of s]
      by simp
    show ?thesis
    proof (cases "spec_prefix_letter c")
      case True
      then have "spec_digit_run s = []"
        using Cons by (simp add: spec_digit_run_Cons spec_prefix_letter_not_digit)
      with True Cons l cap_t d [of t cap] d [of s cap] show ?thesis
        by (simp add: spec_token_at_def del: re_match.simps(3))
    next
      case False
      with Cons l cap_s d [of s cap] show ?thesis
        by (simp add: spec_token_at_def del: re_match.simps(3))
    qed
  qed
qed

lemma startsWith_simps:
  "startsWith s [] = True"
  "startsWith [] (p # ps) = False"
  "startsWith (x # xs) (p # ps) = (x = p \<and> startsWith xs ps)"
  by (auto simp: startsWith_def)

lemma marker_literals:
  "ascii ''strongs:'' = [115, 116, 114, 111, 110, 103, 115, 58]"
  "ascii ''strong:'' = [115, 116, 114, 111, 110, 103, 58]"
  by (simp_all add: ascii_def)

lemma marker_match:
  "re_match MARKER_RE s cap k
     = (case (case spec_after_marker s of None \<Rightarrow> None | Some t \<Rightarrow> k t cap) of
          Some y \<Rightarrow> Some y
        | None \<Rightarrow> k s cap)"
  by (simp add: MARKER_RE_def spec_after_marker_def marker_literals startsWith_simps
           split: list.splits)
     (simp split: option.splits)

lemma match_here_STRONGS_RE:
  "re_match_here STRONGS_RE s
     = (case spec_match_at s of None \<Rightarrow> None | Some (token, rest) \<Rightarrow> Some (rest, Some token))"
  by (simp add: re_match_here_def STRONGS_RE_def marker_match group_match spec_match_at_def
           del: re_match.simps(5,7) split: option.splits)

lemma spec_digit_run_idem: "spec_digit_run (spec_digit_run u) = spec_digit_run u"
proof -
  have "length (takeWhile is_digit (take 5 u)) \<le> 5"
    by (rule le_trans [OF length_takeWhile_le]) simp
  then have "take 5 (takeWhile is_digit (take 5 u)) = takeWhile is_digit (take 5 u)"
    by simp
  then show ?thesis
    by (simp add: spec_digit_run_def)
qed

lemma match_here_DIGITS_RE:
  "re_match_here DIGITS_RE u
     = (if spec_digit_run u \<noteq> [] then Some (drop (length (spec_digit_run u)) u, None) else None)"
  by (auto simp add: re_match_here_def DIGITS_RE_def re_match_digits spec_digit_run_def Let_def
        Suc_le_eq)

lemma exec_DIGITS_RE_run:
  assumes "spec_digit_run u \<noteq> []"
  shows "re_exec DIGITS_RE (spec_digit_run u) = Some (spec_digit_run u, None, [])"
proof -
  obtain d ds where r: "spec_digit_run u = d # ds"
    using assms by (cases "spec_digit_run u") auto
  have "re_match_here DIGITS_RE (spec_digit_run u) = Some ([], None)"
    using assms by (simp add: match_here_DIGITS_RE spec_digit_run_idem)
  then show ?thesis
    unfolding r by simp
qed

lemma exec_DIGITS_RE_token:
  assumes "spec_token_at s = Some (token, rest)"
  shows "re_exec DIGITS_RE token
           = Some (if spec_prefix_letter (hd token) then tl token else token, None, [])"
proof (cases s)
  case Nil
  with assms show ?thesis by (simp add: spec_token_at_def)
next
  case (Cons c t)
  show ?thesis
  proof (cases "spec_prefix_letter c \<and> spec_digit_run t \<noteq> []")
    case True
    with assms Cons have tok: "token = c # spec_digit_run t"
      by (simp add: spec_token_at_def)
    have "re_match_here DIGITS_RE (c # spec_digit_run t) = None"
      using True by (simp add: match_here_DIGITS_RE spec_digit_run_Cons spec_prefix_letter_not_digit)
    with True show ?thesis
      by (simp add: tok exec_DIGITS_RE_run)
  next
    case False
    with assms Cons have tok: "token = spec_digit_run s" and ne: "spec_digit_run s \<noteq> []"
      by (auto simp: spec_token_at_def split: if_splits)
    then have "is_digit (hd token)"
      by (metis hd_in_set set_takeWhileD spec_digit_run_def)
    then have "\<not> spec_prefix_letter (hd token)"
      using spec_prefix_letter_not_digit by blast
    with ne show ?thesis
      by (simp add: tok exec_DIGITS_RE_run)
  qed
qed

lemma spec_match_at_token:
  "spec_match_at s = Some (token, rest) \<Longrightarrow> \<exists>u. spec_token_at u = Some (token, rest)"
  by (auto simp: spec_match_at_def split: option.splits)

lemma spec_match_at_Nil: "spec_match_at [] = None"
  by (simp add: spec_match_at_def spec_token_at_def spec_after_marker_def startsWith_def ascii_def)

text \<open>The step of the loop of \<open>extractStrongs\<close> at a match.\<close>

lemma extractStrongs_loop_step:
  assumes "re_exec STRONGS_RE s = Some (m0, cap, rest)"
  shows "\<exists>token. cap = Some token
           \<and> extractStrongs_loop s results = extractStrongs_loop rest (results @ [spec_code token])
           \<and> spec_strongs s = spec_code token # spec_strongs rest"
  using assms
proof (induction s)
  case Nil
  then have False
    by (simp add: match_here_STRONGS_RE spec_match_at_Nil)
  then show ?case ..
next
  case (Cons c t)
  show ?case
  proof (cases "spec_match_at (c # t)")
    case None
    with Cons.prems have ex: "re_exec STRONGS_RE t = Some (m0, cap, rest)"
      by (simp add: match_here_STRONGS_RE)
    from Cons.IH [OF this] obtain token where
      tok: "cap = Some token"
        "extractStrongs_loop t results = extractStrongs_loop rest (results @ [spec_code token])"
        "spec_strongs t = spec_code token # spec_strongs rest"
      by blast
    have "re_exec STRONGS_RE (c # t) = re_exec STRONGS_RE t"
      using None by (simp add: match_here_STRONGS_RE)
    then have "extractStrongs_loop (c # t) results = extractStrongs_loop t results"
      by (simp add: extractStrongs_loop.simps [of "c # t"] extractStrongs_loop.simps [of t])
    moreover have "spec_strongs (c # t) = spec_strongs t"
      using None by (simp add: spec_strongs.simps [of "c # t"])
    ultimately show ?thesis
      using tok by simp
  next
    case (Some m)
    obtain token r where m: "m = (token, r)" by (cases m)
    with Some Cons.prems have c: "cap = Some token" and r: "r = rest"
      by (auto simp: match_here_STRONGS_RE)
    from Some m r spec_match_at_token obtain u where u: "spec_token_at u = Some (token, rest)"
      by blast
    have ne: "token \<noteq> []"
      using u by (cases u) (auto simp: spec_token_at_def split: if_splits)
    have code: "(case token of [] \<Rightarrow> [] | c # x \<Rightarrow> if c \<in> set (ascii ''HGhg'') then [toUpperCase c] else [])
                  = (if spec_prefix_letter (hd token) then [toUpperCase (hd token)] else [])"
      using ne by (cases token) (simp_all add: spec_prefix_letter_def)
    have sc: "spec_prefix_letter (hd token) \<Longrightarrow>
                toUpperCase (hd token) # decimal (digits_value (tl token)) = spec_code token"
      "\<not> spec_prefix_letter (hd token) \<Longrightarrow>
                ascii ''H'' @ decimal (digits_value token) = spec_code token"
      using ne by (cases token; simp add: spec_code_def ascii_def)+
    have "extractStrongs_loop (c # t) results
            = extractStrongs_loop rest (results @ [spec_code token])"
      using Cons.prems c exec_DIGITS_RE_token [OF u] sc
      by (subst extractStrongs_loop.simps) (simp add: Let_def code)
    moreover have "spec_strongs (c # t) = spec_code token # spec_strongs rest"
      using Some m r by (simp add: spec_strongs.simps [of "c # t"])
    ultimately show ?thesis
      using c by simp
  qed
qed

lemma spec_strongs_no_match:
  "re_exec STRONGS_RE s = None \<Longrightarrow> spec_strongs s = []"
proof (induction s)
  case Nil
  then show ?case
    by (simp add: spec_strongs.simps [of "[]"] spec_match_at_Nil)
next
  case (Cons c t)
  from Cons.prems have "spec_match_at (c # t) = None" and "re_exec STRONGS_RE t = None"
    by (auto simp: match_here_STRONGS_RE split: option.splits)
  with Cons.IH show ?case
    by (simp add: spec_strongs.simps [of "c # t"])
qed

lemma extractStrongs_loop_spec:
  "extractStrongs_loop s results = results @ spec_strongs s"
proof (induction s arbitrary: results rule: length_induct)
  case (1 s)
  show ?case
  proof (cases "re_exec STRONGS_RE s")
    case None
    then show ?thesis
      by (simp add: extractStrongs_loop.simps [of s] spec_strongs_no_match)
  next
    case (Some m)
    obtain m0 cap rest where m: "m = (m0, cap, rest)" by (cases m)
    from Some m have ex: "re_exec STRONGS_RE s = Some (m0, cap, rest)" by simp
    from extractStrongs_loop_step [OF ex, of results] obtain token where
      tok: "extractStrongs_loop s results = extractStrongs_loop rest (results @ [spec_code token])"
        "spec_strongs s = spec_code token # spec_strongs rest"
      by blast
    from re_exec_STRONGS_RE_shorter [OF ex] "1.IH"
    have "extractStrongs_loop rest (results @ [spec_code token])
            = (results @ [spec_code token]) @ spec_strongs rest"
      by blast
    with tok show ?thesis by simp
  qed
qed

text \<open>The decimal rendering of a positive number does not start with a zero.\<close>

lemma decimal_nonempty: "decimal n \<noteq> []"
  by (subst decimal.simps) simp

lemma decimal_no_leading_zero: "0 < n \<Longrightarrow> hd (decimal n) \<noteq> 48"
proof (induction n rule: decimal.induct)
  case (1 n)
  show ?case
  proof (cases "n < 10")
    case True
    with "1.prems" show ?thesis by (subst decimal.simps) simp
  next
    case False
    then have "0 < n div 10" by simp
    with False "1.IH" have "hd (decimal (n div 10)) \<noteq> 48" by simp
    with False show ?thesis
      by (subst decimal.simps) (simp add: decimal_nonempty)
  qed
qed


section \<open>Lemmas without a digit\<close>

text \<open>A match of \<open>STRONGS_RE\<close> contains a digit.\<close>

lemma STRONGS_RE_needs_digit:
  assumes "re_match_here STRONGS_RE s = Some (rest, cap)"
  shows "list_ex is_digit s"
proof -
  let ?K = "\<lambda>rest cap. Some (rest, cap) :: (jstring \<times> jstring option) option"
  let ?G = "Group (Seq (Opt (OneOf [72, 71, 104, 103])) DIGITS_RE)"
  from assms have "re_match MARKER_RE s None (\<lambda>s' cap'. re_match ?G s' cap' ?K) = Some (rest, cap)"
    by (simp add: re_match_here_def STRONGS_RE_def)
  from re_match_suffix [OF this] obtain s1 c1 pre1
    where g: "re_match ?G s1 c1 ?K = Some (rest, cap)" and l1: "s = pre1 @ s1"
    by blast
  let ?K1 = "\<lambda>s' cap'. ?K s' (Some (take (length s1 - length s') s1))"
  from g have "re_match (Opt (OneOf [72, 71, 104, 103])) s1 c1
                 (\<lambda>s' cap'. re_match DIGITS_RE s' cap' ?K1) = Some (rest, cap)"
    by simp
  from re_match_suffix [OF this] obtain s2 c2 pre2
    where d: "re_match DIGITS_RE s2 c2 ?K1 = Some (rest, cap)" and l2: "s1 = pre2 @ s2"
    by blast
  let ?ds = "takeWhile is_digit (take 5 s2)"
  from d have n: "?ds \<noteq> []"
    by (auto simp: DIGITS_RE_def re_match_digits Let_def split: if_splits)
  then have "hd ?ds \<in> set ?ds" by simp
  then have "is_digit (hd ?ds)" and "hd ?ds \<in> set s2"
    by (auto dest: set_takeWhileD in_set_takeD)
  with l1 l2 show ?thesis
    by (auto simp: list_ex_iff)
qed

lemma re_exec_STRONGS_RE_no_digit:
  "\<not> list_ex is_digit s \<Longrightarrow> re_exec STRONGS_RE s = None"
proof (induction s)
  case Nil
  then show ?case
    by (auto split: option.splits dest: STRONGS_RE_needs_digit)
next
  case (Cons c cs)
  have "re_match_here STRONGS_RE (c # cs) = None"
  proof (cases "re_match_here STRONGS_RE (c # cs)")
    case None
    then show ?thesis .
  next
    case (Some p)
    then obtain rest cap where "re_match_here STRONGS_RE (c # cs) = Some (rest, cap)"
      by (cases p) auto
    then have "list_ex is_digit (c # cs)"
      by (rule STRONGS_RE_needs_digit)
    with Cons.prems show ?thesis by simp
  qed
  with Cons show ?case by simp
qed

lemma extractStrongs_no_digit:
  "\<not> list_ex is_digit l \<Longrightarrow> extractStrongs (Some l) = []"
  by (simp add: extractStrongs_def extractStrongs_loop.simps re_exec_STRONGS_RE_no_digit)

lemma map_of_obj_set: "map_of (obj_set key v m) key = Some v"
  by (induction m) auto


section \<open>Properties of the walk\<close>

text \<open>
  A relation between the state before and after holds of every walk as soon as it is
  reflexive and transitive, holds of the two places that push words, and survives the
  save and restore of \<open>isInsideQere\<close> around a qere reading.
\<close>

lemma walk_rel:
  assumes R_refl: "\<And>st. R st st"
    and R_trans: "\<And>st1 st2 st3. R st1 st2 \<Longrightarrow> R st2 st3 \<Longrightarrow> R st1 st3"
    and leaf: "\<And>content st. R st (extract_leaf content st)"
    and inline: "\<And>elem st st'. extract_inline elem st = Some st' \<Longrightarrow> R st st'"
    and qere: "\<And>st st'. R (st\<lparr>isInsideQere := True\<rparr>) st' \<Longrightarrow>
                 R st (st'\<lparr>isInsideQere := isInsideQere st\<rparr>)"
  shows "R st (extractWords v st)"
    and "R st (extractWords_items vs st)"
    and "R st (extractWords_entries es st)"
    and "R st (extractWords_rdgs vs st)"
    and "R st (extractWords_notes vs st)"
proof (induction v st and vs st and es st and vs st and vs st
       rule: extractWords_extractWords_items_extractWords_entries_extractWords_rdgs_extractWords_notes.induct)
  case (1 content st)
  then show ?case by (simp add: extractWords.simps R_refl leaf)
next
  case (2 b s st)
  then show ?case by (simp add: extractWords.simps R_refl)
next
  case (3 content st)
  then show ?case by (simp add: extractWords.simps)
next
  case (4 elem st)
  show ?case
  proof (cases "extract_inline elem st")
    case None
    then show ?thesis by (simp add: extractWords.simps R_refl)
  next
    case (Some st')
    from inline [OF Some] "4.IH" [OF Some] have "R st (extractWords_entries elem st')"
      by (rule R_trans)
    with Some show ?thesis by (simp add: extractWords.simps)
  qed
next
  case (5 st)
  then show ?case by (simp add: extractWords.simps R_refl)
next
  case (6 item items st)
  from "6.IH" have "R st (extractWords_items items (extractWords item st))"
    by (rule R_trans)
  then show ?case by (simp add: extractWords.simps)
next
  case (7 st)
  then show ?case by (simp add: extractWords.simps R_refl)
next
  case (8 key "value" es st)
  consider (cw) "key = ascii ''catchWord''"
    | (rdg) "key \<noteq> ascii ''catchWord''" "key = ascii ''rdg''"
    | (nt) "key \<noteq> ascii ''catchWord''" "key \<noteq> ascii ''rdg''" "key = ascii ''note''"
    | (child) "key \<noteq> ascii ''catchWord''" "key \<noteq> ascii ''rdg''" "key \<noteq> ascii ''note''"
        "\<not> startsWith key (ascii ''@_'') \<and> key \<noteq> ascii ''#text''"
    | (skip) "key \<noteq> ascii ''catchWord''" "key \<noteq> ascii ''rdg''" "key \<noteq> ascii ''note''"
        "\<not> (\<not> startsWith key (ascii ''@_'') \<and> key \<noteq> ascii ''#text'')"
    by blast
  then show ?case
  proof cases
    case cw
    with "8.IH"(1) show ?thesis by (simp add: extractWords.simps)
  next
    case rdg
    from "8.IH"(2) [OF rdg] "8.IH"(3) [OF rdg]
    have "R st (extractWords_entries es (extractWords_rdgs (as_array value) st))"
      by (rule R_trans)
    with rdg show ?thesis by (simp add: extractWords.simps)
  next
    case nt
    from "8.IH"(4) [OF nt] "8.IH"(5) [OF nt]
    have "R st (extractWords_entries es (extractWords_notes (as_array value) st))"
      by (rule R_trans)
    with nt show ?thesis by (simp add: extractWords.simps)
  next
    case child
    from "8.IH"(6) [OF child] "8.IH"(7) [OF child]
    have "R st (extractWords_entries es (extractWords value st))"
      by (rule R_trans)
    with child show ?thesis by (simp add: extractWords.simps)
  next
    case skip
    from "8.IH"(8) [OF skip] skip show ?thesis by (auto simp add: extractWords.simps)
  qed
next
  case (9 st)
  then show ?case by (simp add: extractWords.simps R_refl)
next
  case (10 rdg rdgs st)
  show ?case
  proof (cases rdg)
    case (JStr s)
    with "10.IH"(1) show ?thesis by (simp add: extractWords.simps)
  next
    case (JPrim b s)
    with "10.IH"(2) show ?thesis by (simp add: extractWords.simps)
  next
    case (JArr xs)
    with "10.IH"(3) show ?thesis by (simp add: extractWords.simps)
  next
    case (JObj r)
    show ?thesis
    proof (cases "attr r (ascii ''@_type'') = Some (ascii ''x-qere'')")
      case False
      with JObj "10.IH"(6) show ?thesis by (simp add: extractWords.simps)
    next
      case True
      let ?st' = "extractWords rdg (st\<lparr>isInsideQere := True\<rparr>)"
      from "10.IH"(4) [OF JObj True HOL.refl]
      have "R st (?st'\<lparr>isInsideQere := isInsideQere st\<rparr>)"
        by (rule qere)
      from this "10.IH"(5) [OF JObj True HOL.refl HOL.refl]
      have "R st (extractWords_rdgs rdgs (?st'\<lparr>isInsideQere := isInsideQere st\<rparr>))"
        by (rule R_trans)
      with JObj True show ?thesis by (simp add: extractWords.simps Let_def)
    qed
  qed
next
  case (11 st)
  then show ?case by (simp add: extractWords.simps R_refl)
next
  case (12 n ns st)
  show ?case
  proof (cases n)
    case (JStr s)
    with "12.IH"(1) show ?thesis by (simp add: extractWords.simps)
  next
    case (JPrim b s)
    with "12.IH"(2) show ?thesis by (simp add: extractWords.simps)
  next
    case (JArr xs)
    with "12.IH"(3) show ?thesis by (simp add: extractWords.simps)
  next
    case (JObj noteObj)
    show ?thesis
    proof (cases "map_of noteObj (ascii ''rdg'')")
      case None
      with JObj "12.IH"(4) show ?thesis by (simp add: extractWords.simps)
    next
      case (Some rdgValue)
      show ?thesis
      proof (cases "truthy rdgValue")
        case True
        from "12.IH"(5) [OF JObj Some True] "12.IH"(6) [OF JObj Some True]
        have "R st (extractWords_notes ns (extractWords_rdgs (as_array rdgValue) st))"
          by (rule R_trans)
        with JObj Some True show ?thesis by (simp add: extractWords.simps)
      next
        case False
        with JObj Some "12.IH"(7) show ?thesis by (simp add: extractWords.simps)
      qed
    qed
  qed
qed

text \<open>What the two loops that push words do to the state.\<close>

lemma push_leaf_words_emits:
  "\<exists>ws. words (push_leaf_words ts st) = words st @ ws
      \<and> pos (push_leaf_words ts st) = pos st + length ws
      \<and> isInsideQere (push_leaf_words ts st) = isInsideQere st
      \<and> (\<forall>w\<in>set ws. text' w \<in> set ts \<and> text' w \<noteq> MAQQEF \<and> lemma' w = None \<and> morph w = None
            \<and> strongs w = None \<and> variant w = None)"
proof (induction ts arbitrary: st)
  case Nil
  then show ?case by simp
next
  case (Cons t ts)
  show ?case
  proof (cases "t = MAQQEF")
    case True
    from Cons.IH [of st] True show ?thesis by auto
  next
    case False
    let ?e = "\<lparr>position = pos st, text' = t, lemma' = None, morph = None,
               strongs = None, variant = None, metadata = Some [],
               source = Some \<lparr>src_lemma = None, src_morph = None, src_type = None\<rparr>\<rparr>"
    let ?st1 = "st\<lparr>words := words st @ [?e], pos := pos st + 1\<rparr>"
    from Cons.IH [of ?st1] obtain ws where
      ws: "words (push_leaf_words ts ?st1) = words ?st1 @ ws"
        "pos (push_leaf_words ts ?st1) = pos ?st1 + length ws"
        "isInsideQere (push_leaf_words ts ?st1) = isInsideQere ?st1"
        "\<forall>w\<in>set ws. text' w \<in> set ts \<and> text' w \<noteq> MAQQEF \<and> lemma' w = None \<and> morph w = None
            \<and> strongs w = None \<and> variant w = None"
      by blast
    have eq: "push_leaf_words (t # ts) st = push_leaf_words ts ?st1"
      using False by simp
    show ?thesis
      unfolding eq
      by (rule exI [of _ "?e # ws"]) (use ws False in auto)
  qed
qed

lemma push_elem_words_emits:
  "\<exists>ws. words (push_elem_words elemType lem mor sl ps st) = words st @ ws
      \<and> pos (push_elem_words elemType lem mor sl ps st) = pos st + length ws
      \<and> isInsideQere (push_elem_words elemType lem mor sl ps st) = isInsideQere st
      \<and> (\<forall>w\<in>set ws. text' w \<in> set ps \<and> text' w \<noteq> MAQQEF \<and> lemma' w = or_null lem
            \<and> morph w = or_null mor
            \<and> strongs w = (if sl \<noteq> [] then Some sl else None)
            \<and> variant w = (if elemType = Some (ascii ''x-ketiv'') then Some Ketiv
                           else if isInsideQere st then Some Qere else None))"
proof (induction ps arbitrary: st)
  case Nil
  then show ?case by simp
next
  case (Cons p ps)
  show ?case
  proof (cases "p = MAQQEF")
    case True
    from Cons.IH [of st] True show ?thesis by auto
  next
    case False
    obtain st1 where st1: "push_elem_words elemType lem mor sl (p # ps) st
                            = push_elem_words elemType lem mor sl ps st1"
      and w1: "words st1 = words st @ [last (words st1)]"
      and p1: "pos st1 = pos st + 1" and f1: "isInsideQere st1 = isInsideQere st"
      and e1: "text' (last (words st1)) = p" "lemma' (last (words st1)) = or_null lem"
        "morph (last (words st1)) = or_null mor"
        "strongs (last (words st1)) = (if sl \<noteq> [] then Some sl else None)"
        "variant (last (words st1)) = (if elemType = Some (ascii ''x-ketiv'') then Some Ketiv
                           else if isInsideQere st then Some Qere else None)"
      using False by (simp add: Let_def)
    from Cons.IH [of st1] obtain ws where
      ws: "words (push_elem_words elemType lem mor sl ps st1) = words st1 @ ws"
        "pos (push_elem_words elemType lem mor sl ps st1) = pos st1 + length ws"
        "isInsideQere (push_elem_words elemType lem mor sl ps st1) = isInsideQere st1"
        "\<forall>w\<in>set ws. text' w \<in> set ps \<and> text' w \<noteq> MAQQEF \<and> lemma' w = or_null lem
            \<and> morph w = or_null mor
            \<and> strongs w = (if sl \<noteq> [] then Some sl else None)
            \<and> variant w = (if elemType = Some (ascii ''x-ketiv'') then Some Ketiv
                           else if isInsideQere st1 then Some Qere else None)"
      by blast
    have "words (push_elem_words elemType lem mor sl ps st1) = words st @ (last (words st1) # ws)"
      using ws(1) w1 by (metis append.assoc append_Cons append_Nil)
    then show ?thesis
      unfolding st1
      by (intro exI [of _ "last (words st1) # ws"]) (use ws p1 f1 e1 False in auto)
  qed
qed

lemma extract_leaf_emits:
  "\<exists>ws. words (extract_leaf content st) = words st @ ws
      \<and> pos (extract_leaf content st) = pos st + length ws
      \<and> isInsideQere (extract_leaf content st) = isInsideQere st
      \<and> (\<forall>w\<in>set ws. text' w \<noteq> MAQQEF \<and> lemma' w = None \<and> morph w = None
            \<and> strongs w = None \<and> variant w = None)"
proof (cases "trim (remove_slashes content) = []")
  case True
  then show ?thesis by (simp add: extract_leaf_def)
next
  case False
  from push_leaf_words_emits [of "tokens (trim (remove_slashes content))" st] False
  show ?thesis by (auto simp: extract_leaf_def)
qed

lemma extract_inline_emits:
  assumes "extract_inline elem st = Some st'"
  shows "\<exists>ws. words st' = words st @ ws
      \<and> pos st' = pos st + length ws
      \<and> isInsideQere st' = isInsideQere st
      \<and> (\<forall>w\<in>set ws. text' w \<noteq> MAQQEF
            \<and> lemma' w = or_null (attr elem (ascii ''@_lemma''))
            \<and> morph w = or_null (attr elem (ascii ''@_morph''))
            \<and> strongs w = (if extractStrongs (or_null (attr elem (ascii ''@_lemma''))) \<noteq> []
                           then Some (extractStrongs (or_null (attr elem (ascii ''@_lemma''))))
                           else None)
            \<and> variant w = (if attr elem (ascii ''@_type'') = Some (ascii ''x-ketiv'') then Some Ketiv
                           else if isInsideQere st then Some Qere else None))"
proof -
  let ?emit = "push_elem_words (attr elem (ascii ''@_type'')) (attr elem (ascii ''@_lemma''))
                 (attr elem (ascii ''@_morph''))
                 (extractStrongs (or_null (attr elem (ascii ''@_lemma''))))"
  from assms consider "st' = st"
    | t where "st' = ?emit (tokens (trim (remove_slashes (js_String t)))) st"
    by (auto simp: extract_inline_def Let_def split: option.splits if_splits)
  then show ?thesis
  proof cases
    case 1
    then show ?thesis by simp
  next
    case 2
    from push_elem_words_emits
           [of "attr elem (ascii ''@_type'')" "attr elem (ascii ''@_lemma'')"
               "attr elem (ascii ''@_morph'')"
               "extractStrongs (or_null (attr elem (ascii ''@_lemma'')))"
               "tokens (trim (remove_slashes (js_String t)))" st]
    show ?thesis unfolding 2 by blast
  qed
qed

text \<open>
  What every walk does to the state: it appends words, advances \<open>pos\<close> by their number
  and leaves \<open>isInsideQere\<close> as it found it.  No appended word is a maqqef, and its
  \<open>strongs\<close> is what \<open>extractStrongs\<close> makes of its lemma.
\<close>

lemma walk_emits:
  fixes st :: wstate
  defines "E \<equiv> \<lambda>w. text' w \<noteq> MAQQEF \<and> lemma' w \<noteq> Some []
            \<and> strongs w = (if extractStrongs (lemma' w) \<noteq> []
                           then Some (extractStrongs (lemma' w)) else None)"
  defines "R \<equiv> \<lambda>st st'. \<exists>ws. words st' = words st @ ws
      \<and> pos st' = pos st + length ws
      \<and> isInsideQere st' = isInsideQere st
      \<and> (\<forall>w\<in>set ws. E w)"
  shows "R st (extractWords v st)"
    and "R st (extractWords_items vs st)"
    and "R st (extractWords_entries es st)"
    and "R st (extractWords_rdgs vs st)"
    and "R st (extractWords_notes vs st)"
proof -
  have R_refl: "\<And>st. R st st"
    by (simp add: R_def)
  have R_trans: "\<And>st1 st2 st3. R st1 st2 \<Longrightarrow> R st2 st3 \<Longrightarrow> R st1 st3"
  proof -
    fix st1 st2 st3 assume "R st1 st2" "R st2 st3"
    then obtain ws1 ws2 where
      a: "words st2 = words st1 @ ws1" "pos st2 = pos st1 + length ws1"
         "isInsideQere st2 = isInsideQere st1" "\<forall>w\<in>set ws1. E w"
      and b: "words st3 = words st2 @ ws2" "pos st3 = pos st2 + length ws2"
         "isInsideQere st3 = isInsideQere st2" "\<forall>w\<in>set ws2. E w"
      unfolding R_def by blast
    show "R st1 st3"
      unfolding R_def
      by (rule exI [of _ "ws1 @ ws2"]) (use a b in auto)
  qed
  have nonempty: "\<And>x. or_null x \<noteq> Some []"
    by (simp add: or_null_def split: option.splits)
  have none: "extractStrongs None = []"
    by (simp add: extractStrongs_def)
  have R_leaf: "\<And>content st. R st (extract_leaf content st)"
  proof -
    fix content st
    from extract_leaf_emits [of content st] obtain ws where
      ws: "words (extract_leaf content st) = words st @ ws"
        "pos (extract_leaf content st) = pos st + length ws"
        "isInsideQere (extract_leaf content st) = isInsideQere st"
        "\<forall>w\<in>set ws. text' w \<noteq> MAQQEF \<and> lemma' w = None \<and> morph w = None
            \<and> strongs w = None \<and> variant w = None"
      by blast
    from ws(4) have "\<forall>w\<in>set ws. E w"
      by (simp add: E_def none)
    with ws(1-3) show "R st (extract_leaf content st)"
      unfolding R_def by blast
  qed
  have R_inline: "\<And>elem st st'. extract_inline elem st = Some st' \<Longrightarrow> R st st'"
  proof -
    fix elem st st' assume "extract_inline elem st = Some st'"
    from extract_inline_emits [OF this] obtain ws where
      ws: "words st' = words st @ ws" "pos st' = pos st + length ws"
        "isInsideQere st' = isInsideQere st"
        "\<forall>w\<in>set ws. text' w \<noteq> MAQQEF
            \<and> lemma' w = or_null (attr elem (ascii ''@_lemma''))
            \<and> strongs w = (if extractStrongs (or_null (attr elem (ascii ''@_lemma''))) \<noteq> []
                           then Some (extractStrongs (or_null (attr elem (ascii ''@_lemma''))))
                           else None)"
      by blast
    from ws(4) have "\<forall>w\<in>set ws. E w"
      by (simp add: E_def nonempty)
    with ws(1-3) show "R st st'"
      unfolding R_def by blast
  qed
  have R_qere: "\<And>st st'. R (st\<lparr>isInsideQere := True\<rparr>) st' \<Longrightarrow>
                 R st (st'\<lparr>isInsideQere := isInsideQere st\<rparr>)"
    unfolding R_def by simp blast
  note rel = walk_rel [of R, OF R_refl R_trans R_leaf R_inline R_qere]
  show "R st (extractWords v st)" by (rule rel(1))
  show "R st (extractWords_items vs st)" by (rule rel(2))
  show "R st (extractWords_entries es st)" by (rule rel(3))
  show "R st (extractWords_rdgs vs st)" by (rule rel(4))
  show "R st (extractWords_notes vs st)" by (rule rel(5))
qed


lemma extractWords_verse_emits:
  fixes st :: wstate
  defines "E \<equiv> \<lambda>w. text' w \<noteq> MAQQEF \<and> lemma' w \<noteq> Some []
            \<and> strongs w = (if extractStrongs (lemma' w) \<noteq> []
                           then Some (extractStrongs (lemma' w)) else None)"
  shows "\<exists>ws. words (extractWords_verse es st) = words st @ ws
      \<and> pos (extractWords_verse es st) = pos st + length ws
      \<and> isInsideQere (extractWords_verse es st) = isInsideQere st
      \<and> (\<forall>w\<in>set ws. E w)"
proof (induction es arbitrary: st)
  case Nil
  then show ?case by simp
next
  case (Cons e es)
  obtain key v where e: "e = (key, v)" by (cases e)
  show ?case
  proof (cases "startsWith key (ascii ''@_'')")
    case True
    with Cons.IH [of st] e show ?thesis by simp
  next
    case False
    let ?st1 = "extractWords v st"
    from walk_emits(1) [of v st] obtain ws1 where
      a: "words ?st1 = words st @ ws1" "pos ?st1 = pos st + length ws1"
         "isInsideQere ?st1 = isInsideQere st" "\<forall>w\<in>set ws1. E w"
      unfolding E_def by blast
    from Cons.IH [of ?st1] obtain ws2 where
      b: "words (extractWords_verse es ?st1) = words ?st1 @ ws2"
         "pos (extractWords_verse es ?st1) = pos ?st1 + length ws2"
         "isInsideQere (extractWords_verse es ?st1) = isInsideQere ?st1" "\<forall>w\<in>set ws2. E w"
      by blast
    have eq: "extractWords_verse (e # es) st = extractWords_verse es ?st1"
      using False e by simp
    show ?thesis
      unfolding eq
      by (rule exI [of _ "ws1 @ ws2"]) (use a b in auto)
  qed
qed

text \<open>What \<open>findVerses\<close> adds to \<open>results\<close> was added by the block for a verse element.\<close>

lemma findVerses_all:
  assumes block: "\<And>record results. list_all Q results \<Longrightarrow> list_all Q (verse_block record results)"
  shows "list_all Q results \<Longrightarrow> list_all Q (findVerses v results)"
    and "list_all Q results \<Longrightarrow> list_all Q (findVerses_items vs results)"
    and "list_all Q results \<Longrightarrow> list_all Q (findVerses_values es results)"
  by (induction v results and vs results and es results
      rule: findVerses_findVerses_items_findVerses_values.induct)
     (simp_all add: block)

lemma verse_block_cases:
  "verse_block record results = results
   \<or> (\<exists>b c n. words (extractWords_verse record init_state) \<noteq> []
        \<and> verse_block record results = results @
             [\<lparr>book = b, chapter' = c, number = n,
               verse_text = join (ascii '' '')
                              (map text' (words (extractWords_verse record init_state))),
               verse_words = words (extractWords_verse record init_state)\<rparr>])"
  by (auto simp: verse_block_def Let_def split: option.splits jsval.splits)

text \<open>The verses that \<open>parseOsis\<close> returns.\<close>

lemma parseOsis_verses:
  assumes "v \<in> set (parseOsis doc)"
  shows "\<exists>record. verse_words v = words (extractWords_verse record init_state)
           \<and> verse_words v \<noteq> []
           \<and> verse_text v = join (ascii '' '') (map text' (verse_words v))"
proof -
  let ?Q = "\<lambda>v :: parsed_verse. \<exists>record. verse_words v = words (extractWords_verse record init_state)
           \<and> verse_words v \<noteq> []
           \<and> verse_text v = join (ascii '' '') (map text' (verse_words v))"
  have "list_all ?Q (findVerses doc [])"
  proof (rule findVerses_all(1))
    fix r results
    assume "list_all ?Q results"
    with verse_block_cases [of r results]
    show "list_all ?Q (verse_block r results)"
      by (elim disjE exE conjE) (simp, simp, blast)
  qed simp
  with assms show ?thesis
    by (simp add: parseOsis_def list_all_iff)
qed

lemma raw_words_inv:
  assumes "v \<in> set (parseOsis doc)" and "w \<in> set (verse_words v)"
  shows "text' w \<noteq> MAQQEF \<and> lemma' w \<noteq> Some []
         \<and> strongs w = (if extractStrongs (lemma' w) \<noteq> []
                        then Some (extractStrongs (lemma' w)) else None)"
proof -
  from parseOsis_verses [OF assms(1)] obtain r
    where r: "verse_words v = words (extractWords_verse r init_state)"
    by blast
  from extractWords_verse_emits [of r init_state] assms(2) show ?thesis
    unfolding r by (auto simp: init_state_def)
qed


text \<open>The keys that the loop over an element's entries tells apart.\<close>

lemma keys_distinct:
  "ascii ''rdg'' \<noteq> ascii ''catchWord''" "ascii ''note'' \<noteq> ascii ''catchWord''"
  "ascii ''note'' \<noteq> ascii ''rdg''"
  by (simp_all add: ascii_def)

text \<open>Readings that are not typed \<open>x-qere\<close> leave the state as it is.\<close>

lemma extractWords_rdgs_no_qere:
  "\<forall>r. JObj r \<in> set rdgs \<longrightarrow> attr r (ascii ''@_type'') \<noteq> Some (ascii ''x-qere'') \<Longrightarrow>
   extractWords_rdgs rdgs st = st"
proof (induction rdgs)
  case Nil
  then show ?case by (simp add: extractWords.simps)
next
  case (Cons rdg rdgs)
  then show ?case
    by (cases rdg) (simp_all add: extractWords.simps)
qed

text \<open>The variant of the words that an element pushes for its inline text.\<close>

lemma extract_inline_new_words:
  assumes "extract_inline elem st = Some st'"
    and "w \<in> set (drop (length (words st)) (words st'))"
  shows "variant w = (if attr elem (ascii ''@_type'') = Some (ascii ''x-ketiv'') then Some Ketiv
                      else if isInsideQere st then Some Qere else None)"
proof -
  from extract_inline_emits [OF assms(1)] obtain ws where
    "words st' = words st @ ws"
    "\<forall>w\<in>set ws. variant w = (if attr elem (ascii ''@_type'') = Some (ascii ''x-ketiv'') then Some Ketiv
                      else if isInsideQere st then Some Qere else None)"
    by blast
  with assms(2) show ?thesis by simp
qed

lemma extractWords_verse_flag:
  "isInsideQere (extractWords_verse es st) = isInsideQere st"
  using extractWords_verse_emits [of es st] by blast

text \<open>
  An element whose entries are only a catch word, attributes, inline text and readings
  not typed \<open>x-qere\<close> has nothing for the loop over its entries to walk.
\<close>

lemma extractWords_entries_skipped:
  assumes "\<forall>(k, v)\<in>set es.
             k = ascii ''catchWord'' \<or> startsWith k (ascii ''@_'') \<or> k = ascii ''#text''
             \<or> (k = ascii ''rdg'' \<and> (\<forall>r. JObj r \<in> set (as_array v)
                     \<longrightarrow> attr r (ascii ''@_type'') \<noteq> Some (ascii ''x-qere'')))"
  shows "extractWords_entries es st = st"
  using assms
proof (induction es)
  case Nil
  then show ?case by simp
next
  case (Cons e es)
  obtain k v where e: "e = (k, v)" by (cases e)
  from Cons.prems have rest: "extractWords_entries es st = st"
    by (intro Cons.IH) simp
  from Cons.prems e consider "k = ascii ''catchWord''"
    | "k = ascii ''rdg''" "\<forall>r. JObj r \<in> set (as_array v)
                     \<longrightarrow> attr r (ascii ''@_type'') \<noteq> Some (ascii ''x-qere'')"
    | "startsWith k (ascii ''@_'') \<or> k = ascii ''#text''"
    by auto
  then show ?case
  proof cases
    case 1
    with e rest show ?thesis by simp
  next
    case 2
    with e rest keys_distinct show ?thesis
      by (simp add: extractWords_rdgs_no_qere)
  next
    case 3
    then have "k \<noteq> ascii ''note''" "k \<noteq> ascii ''catchWord''" "k \<noteq> ascii ''rdg''"
      by (auto simp: startsWith_def ascii_def)
    with 3 e rest show ?thesis by auto
  qed
qed

text \<open>The loops over a list that is given in two parts.\<close>

lemma extractWords_items_append:
  "extractWords_items (xs @ ys) st = extractWords_items ys (extractWords_items xs st)"
  by (induction xs arbitrary: st) simp_all

lemma extractWords_entries_append:
  "extractWords_entries (xs @ ys) st = extractWords_entries ys (extractWords_entries xs st)"
  by (induction xs arbitrary: st) auto

text \<open>The empty string has no token.\<close>

lemma tokens_Nil: "tokens [] = []"
  by (simp add: tokens_def split_ws.simps [of "[]"])

text \<open>An element with blank inline text, or none, pushes nothing for it.\<close>

lemma extract_inline_blank:
  assumes "\<forall>(key, v)\<in>set e. key = ascii ''#text'' \<longrightarrow> trim (remove_slashes (js_String v)) = []"
    and "\<forall>ty. attr e (ascii ''@_type'') = Some ty \<longrightarrow>
           \<not> startsWith ty (ascii ''x-'') \<or> ty = ascii ''x-ketiv'' \<or> ty = ascii ''x-qere''"
  shows "extract_inline e st = Some st"
proof (cases "map_of e (ascii ''#text'')")
  case None
  then show ?thesis by (simp add: extract_inline_def)
next
  case (Some t)
  then have "(ascii ''#text'', t) \<in> set e"
    by (rule map_of_SomeD)
  with assms(1) have "trim (remove_slashes (js_String t)) = []"
    by auto
  with Some assms(2) show ?thesis
    by (auto simp: extract_inline_def Let_def or_null_def split: option.splits)
qed

text \<open>Such an element pushes nothing for its text whatever its type is.\<close>

lemma extract_inline_blank_cases:
  assumes "\<forall>(key, v)\<in>set e. key = ascii ''#text'' \<longrightarrow> trim (remove_slashes (js_String v)) = []"
  shows "extract_inline e st = Some st \<or> extract_inline e st = None"
proof (cases "map_of e (ascii ''#text'')")
  case None
  then show ?thesis by (simp add: extract_inline_def)
next
  case (Some t)
  then have "(ascii ''#text'', t) \<in> set e"
    by (rule map_of_SomeD)
  with assms have "trim (remove_slashes (js_String t)) = []"
    by auto
  with Some show ?thesis
    by (simp add: extract_inline_def Let_def)
qed

text \<open>A word element: one word of inline text, a lemma, no child elements.\<close>

lemma word_element_pushed:
  assumes "map_of e (ascii ''#text'') = Some (JStr t)"
    and "tokens (trim (remove_slashes t)) = [tok]" and "tok \<noteq> MAQQEF"
    and "attr e (ascii ''@_type'') = None \<or> attr e (ascii ''@_type'') = Some (ascii ''x-ketiv'')"
    and "attr e (ascii ''@_lemma'') = Some l" and "l \<noteq> []"
    and "\<forall>(key, v)\<in>set e. startsWith key (ascii ''@_'') \<or> key = ascii ''#text''"
  shows "extractWords (JObj e) st =
           st\<lparr>words := words st @
                 [\<lparr>position = pos st, text' = tok, lemma' = Some l,
                   morph = or_null (attr e (ascii ''@_morph'')),
                   strongs = (if extractStrongs (Some l) \<noteq> [] then Some (extractStrongs (Some l))
                              else None),
                   variant = (if attr e (ascii ''@_type'') = Some (ascii ''x-ketiv'') then Some Ketiv
                              else if isInsideQere st then Some Qere else None),
                   metadata = None,
                   source = Some \<lparr>src_lemma = Some l,
                                  src_morph = or_null (attr e (ascii ''@_morph'')),
                                  src_type = or_null (attr e (ascii ''@_type''))\<rparr>\<rparr>],
               pos := pos st + 1\<rparr>"
proof -
  from assms(2) have ne: "trim (remove_slashes t) \<noteq> []"
    by (auto simp: tokens_Nil)
  then have t: "t \<noteq> []"
    by (auto simp: trim_def remove_slashes_def)
  have k: "ascii ''x-ketiv'' \<noteq> []"
    by (simp add: ascii_def)
  have "extractWords_entries e s = s" for s
    using assms(7) by (intro extractWords_entries_skipped) auto
  moreover have "extract_inline e st =
      Some (push_elem_words (attr e (ascii ''@_type'')) (Some l) (attr e (ascii ''@_morph''))
              (extractStrongs (Some l)) [tok] st)"
    using assms(1,2,4,5,6) ne t
    by (auto simp: extract_inline_def Let_def or_null_def)
  ultimately show ?thesis
    using assms(3,4,6) k
    by (auto simp: extractWords.simps Let_def or_null_def)
qed


text \<open>The lookup of a key that no earlier entry has.\<close>

lemma map_of_middle:
  assumes "\<forall>(key, v)\<in>set xs. key \<noteq> k"
  shows "map_of (xs @ (k, v) # ys) k = Some v"
  using assms by (induction xs) auto

text \<open>
  A reading typed \<open>x-qere\<close> that holds one word element, and beside it only attributes
  and blank text: the word is pushed with the flag set, and the flag is put back.
\<close>

lemma qere_reading_walked:
  assumes q: "map_of q (ascii ''#text'') = Some (JStr qt)"
      "tokens (trim (remove_slashes qt)) = [qtok]" "qtok \<noteq> MAQQEF"
      "attr q (ascii ''@_type'') = None"
      "attr q (ascii ''@_lemma'') = Some l" "l \<noteq> []"
      "\<forall>(key, v)\<in>set q. startsWith key (ascii ''@_'') \<or> key = ascii ''#text''"
    and r: "r = ra @ (ascii ''w'', JObj q) # rb"
      "attr r (ascii ''@_type'') = Some (ascii ''x-qere'')"
      "\<forall>(key, v)\<in>set (ra @ rb). startsWith key (ascii ''@_'')
          \<or> (key = ascii ''#text'' \<and> trim (remove_slashes (js_String v)) = [])"
  shows "extractWords_rdgs [JObj r] st =
           st\<lparr>words := words st @
                 [\<lparr>position = pos st, text' = qtok, lemma' = Some l,
                   morph = or_null (attr q (ascii ''@_morph'')),
                   strongs = (if extractStrongs (Some l) \<noteq> [] then Some (extractStrongs (Some l))
                              else None),
                   variant = Some Qere, metadata = None,
                   source = Some \<lparr>src_lemma = Some l,
                                  src_morph = or_null (attr q (ascii ''@_morph'')),
                                  src_type = None\<rparr>\<rparr>],
               pos := pos st + 1\<rparr>"
proof -
  have w: "ascii ''w'' \<noteq> ascii ''catchWord''" "ascii ''w'' \<noteq> ascii ''rdg''"
    "ascii ''w'' \<noteq> ascii ''note''" "\<not> startsWith (ascii ''w'') (ascii ''@_'')"
    "ascii ''w'' \<noteq> ascii ''#text''"
    by (simp_all add: ascii_def startsWith_def)
  have skip: "extractWords_entries xs s = s"
    if "set xs \<subseteq> set (ra @ rb)" for xs s
    using that r(3) by (intro extractWords_entries_skipped) auto
  have inl: "extract_inline r s = Some s" for s
  proof (rule extract_inline_blank)
    have "\<not> startsWith (ascii ''#text'') (ascii ''@_'')"
      by (simp add: startsWith_def ascii_def)
    moreover have "set r = insert (ascii ''w'', JObj q) (set (ra @ rb))"
      by (auto simp: r(1))
    ultimately show "\<forall>(key, v)\<in>set r. key = ascii ''#text'' \<longrightarrow>
                       trim (remove_slashes (js_String v)) = []"
      using r(3) w(5) by fastforce
    show "\<forall>ty. attr r (ascii ''@_type'') = Some ty \<longrightarrow>
           \<not> startsWith ty (ascii ''x-'') \<or> ty = ascii ''x-ketiv'' \<or> ty = ascii ''x-qere''"
      using r(2) by simp
  qed
  have "extractWords_entries r s = extractWords (JObj q) s" for s
    using w by (simp add: r(1) extractWords_entries_append skip)
  with inl have "extractWords (JObj r) s = extractWords (JObj q) s" for s
    by (simp add: extractWords.simps)
  then show ?thesis
    using r(2) q(4) word_element_pushed [OF q(1,2,3) _ q(5,6,7), of "st\<lparr>isInsideQere := True\<rparr>"]
    by (simp add: Let_def or_null_def)
qed

text \<open>
  A note that holds such a reading, and beside it only a catch word, attributes and
  blank text, and whose type does not start with \<open>x-\<close>: walked as an element, the way
  the notes directly below a verse are, and walked by the loop over the notes of an
  element, it comes to the reading.
\<close>

lemma qere_note_walked:
  assumes n: "n = na @ (ascii ''rdg'', JObj r) # nb"
      "\<forall>(key, v)\<in>set (na @ nb). key = ascii ''catchWord'' \<or> startsWith key (ascii ''@_'')
          \<or> (key = ascii ''#text'' \<and> trim (remove_slashes (js_String v)) = [])"
      "\<forall>ty. attr n (ascii ''@_type'') = Some ty \<longrightarrow> \<not> startsWith ty (ascii ''x-'')"
  shows "extractWords (JObj n) st = extractWords_rdgs [JObj r] st"
    and "extractWords_notes [JObj n] st = extractWords_rdgs [JObj r] st"
proof -
  have skip: "extractWords_entries xs s = s"
    if "set xs \<subseteq> set (na @ nb)" for xs s
    using that n(2) by (intro extractWords_entries_skipped) auto
  have inl: "extract_inline n s = Some s" for s
  proof (rule extract_inline_blank)
    have "\<not> startsWith (ascii ''#text'') (ascii ''@_'')" "ascii ''#text'' \<noteq> ascii ''catchWord''"
      "ascii ''rdg'' \<noteq> ascii ''#text''"
      by (simp_all add: startsWith_def ascii_def)
    moreover have "set n = insert (ascii ''rdg'', JObj r) (set (na @ nb))"
      by (auto simp: n(1))
    ultimately show "\<forall>(key, v)\<in>set n. key = ascii ''#text'' \<longrightarrow>
                       trim (remove_slashes (js_String v)) = []"
      using n(2) by fastforce
    show "\<forall>ty. attr n (ascii ''@_type'') = Some ty \<longrightarrow>
           \<not> startsWith ty (ascii ''x-'') \<or> ty = ascii ''x-ketiv'' \<or> ty = ascii ''x-qere''"
      using n(3) by simp
  qed
  have "extractWords_entries n s = extractWords_rdgs [JObj r] s" for s
    by (simp add: n(1) extractWords_entries_append skip keys_distinct as_array_def)
  with inl show "extractWords (JObj n) st = extractWords_rdgs [JObj r] st"
    by (simp add: extractWords.simps)
  have "\<not> startsWith (ascii ''rdg'') (ascii ''@_'')" "ascii ''rdg'' \<noteq> ascii ''#text''"
    by (simp_all add: startsWith_def ascii_def)
  then have "\<forall>(key, v)\<in>set na. key \<noteq> ascii ''rdg''"
    using n(2) keys_distinct(1) by fastforce
  then have "map_of n (ascii ''rdg'') = Some (JObj r)"
    unfolding n(1) by (rule map_of_middle)
  then show "extractWords_notes [JObj n] st = extractWords_rdgs [JObj r] st"
    by (simp add: as_array_def)
qed


section \<open>Properties of saveVerse\<close>

text \<open>The loop of \<open>saveVerse\<close> only ever appends to \<open>filteredWords\<close>.\<close>

lemma saveVerse_loop_acc:
  "saveVerse_loop ws fw p = fw @ saveVerse_loop ws [] p"
proof (induction ws arbitrary: fw p)
  case Nil
  then show ?case by simp
next
  case (Cons w ws)
  show ?case
  proof (cases "isTextualCriticalNote w \<or> isParagraphMarker w")
    case True
    with Cons.IH [of fw p] show ?thesis by auto
  next
    case False
    from False Cons.IH [of "fw @ [saved_entry w p]" "p + 1"]
      Cons.IH [of "[saved_entry w p]" "p + 1"]
    show ?thesis by simp
  qed
qed

lemma saveVerse_loop_positions:
  "i < length (saveVerse_loop ws [] p) \<Longrightarrow> position (saveVerse_loop ws [] p ! i) = p + i"
proof (induction ws arbitrary: p i)
  case Nil
  then show ?case by simp
next
  case (Cons w ws)
  show ?case
  proof (cases "isTextualCriticalNote w \<or> isParagraphMarker w")
    case True
    then have "saveVerse_loop (w # ws) [] p = saveVerse_loop ws [] p" by auto
    with Cons.IH [of i p] Cons.prems show ?thesis by simp
  next
    case False
    then have eq: "saveVerse_loop (w # ws) [] p = saved_entry w p # saveVerse_loop ws [] (p + 1)"
      using saveVerse_loop_acc [of ws "[saved_entry w p]" "p + 1"] by simp
    have pe: "position (saved_entry w p) = p"
      by (simp add: saved_entry_def Let_def)
    show ?thesis
    proof (cases i)
      case 0
      with eq pe show ?thesis by simp
    next
      case (Suc j)
      with Cons.prems eq have "j < length (saveVerse_loop ws [] (p + 1))" by simp
      from Cons.IH [OF this] eq Suc show ?thesis by simp
    qed
  qed
qed

lemma saveVerse_loop_texts:
  "map text' (saveVerse_loop ws [] p)
     = map text' (filter (\<lambda>w. \<not> isTextualCriticalNote w \<and> \<not> isParagraphMarker w) ws)"
proof (induction ws arbitrary: p)
  case Nil
  then show ?case by simp
next
  case (Cons w ws)
  show ?case
  proof (cases "isTextualCriticalNote w \<or> isParagraphMarker w")
    case True
    with Cons.IH [of p] show ?thesis by auto
  next
    case False
    then have "saveVerse_loop (w # ws) [] p = saved_entry w p # saveVerse_loop ws [] (p + 1)"
      using saveVerse_loop_acc [of ws "[saved_entry w p]" "p + 1"] by simp
    moreover have "text' (saved_entry w p) = text' w"
      by (simp add: saved_entry_def Let_def)
    ultimately show ?thesis
      using Cons.IH [of "p + 1"] False by simp
  qed
qed


lemma saveVerse_loop_set:
  "w \<in> set (saveVerse_loop ws [] p) \<Longrightarrow>
   \<exists>r q. r \<in> set ws \<and> \<not> isTextualCriticalNote r \<and> \<not> isParagraphMarker r \<and> w = saved_entry r q"
proof (induction ws arbitrary: p)
  case Nil
  then show ?case by simp
next
  case (Cons x xs)
  show ?case
  proof (cases "isTextualCriticalNote x \<or> isParagraphMarker x")
    case True
    then have "saveVerse_loop (x # xs) [] p = saveVerse_loop xs [] p" by auto
    with Cons.prems Cons.IH [of p] show ?thesis by auto
  next
    case False
    then have "saveVerse_loop (x # xs) [] p = saved_entry x p # saveVerse_loop xs [] (p + 1)"
      using saveVerse_loop_acc [of xs "[saved_entry x p]" "p + 1"] by simp
    with Cons.prems Cons.IH [of "p + 1"] False show ?thesis by auto
  qed
qed

lemma saved_entry_fields:
  "text' (saved_entry r q) = text' r" "lemma' (saved_entry r q) = lemma' r"
  "strongs (saved_entry r q) = strongs r" "variant (saved_entry r q) = variant r"
  by (simp_all add: saved_entry_def Let_def)


section \<open>Verse records after filtering\<close>

text \<open>
  Claim C6.  In every verse record that \<open>saveVerse\<close> produces, the positions of the
  words are 1, 2, 3, ... in order: the word at index \<open>i\<close> has position \<open>i + 1\<close>, whatever
  the raw words were and however many of them the filters dropped.
\<close>

theorem saveVerse_positions_contiguous:
  "(\<forall>i < length (data_words (saveVerse verse)).
       position (data_words (saveVerse verse) ! i) = i + 1)
   \<and> map position (data_words (saveVerse verse))
       = map (\<lambda>i. i + 1) [0 ..< length (data_words (saveVerse verse))]"
proof -
  let ?ws = "saveVerse_loop (verse_words verse) [] 1"
  have dw: "data_words (saveVerse verse) = ?ws"
    by (simp add: saveVerse_def Let_def)
  have p: "\<forall>i < length ?ws. position (?ws ! i) = i + 1"
    using saveVerse_loop_positions [of _ "verse_words verse" 1] by simp
  then have "map position ?ws = map (\<lambda>i. i + 1) [0 ..< length ?ws]"
    by (intro nth_equalityI) simp_all
  with p show ?thesis by (simp only: dw)
qed

text \<open>
  A raw verse with four words, of which the filters drop two: a piece of footnote
  prose without Hebrew letters and a paragraph marker.
\<close>

theorem saveVerse_positions_contiguous_witness:
  "length (data_words (saveVerse example_verse)) = 2
   \<and> position (data_words (saveVerse example_verse) ! 0) = 1
   \<and> position (data_words (saveVerse example_verse) ! 1) = 2"
proof -
  have len: "length (data_words (saveVerse example_verse)) = 2"
    by code_simp
  from saveVerse_positions_contiguous [of example_verse] show ?thesis
    by (simp add: len)
qed

text \<open>
  Claim C7.  In every verse record that \<open>saveVerse\<close> produces, the field \<open>text\<close> is the
  texts of the record's words joined by single spaces, and these are the texts of the
  raw words that are neither a textual-critical note nor a paragraph marker, in their
  order.
\<close>

theorem saveVerse_text_is_join:
  "data_text (saveVerse verse) = join (ascii '' '') (map text' (data_words (saveVerse verse)))
   \<and> map text' (data_words (saveVerse verse))
       = map text' (filter (\<lambda>w. \<not> isTextualCriticalNote w \<and> \<not> isParagraphMarker w)
                      (verse_words verse))"
  by (simp add: saveVerse_def Let_def saveVerse_loop_texts)

theorem saveVerse_text_is_join_witness:
  "data_text (saveVerse example_verse) = [0x5D0, 0x5D1, 32, 0x5DC, 0x5D4]
   \<and> map text' (data_words (saveVerse example_verse)) = [[0x5D0, 0x5D1], [0x5DC, 0x5D4]]"
proof -
  have kept: "map text' (filter (\<lambda>w. \<not> isTextualCriticalNote w \<and> \<not> isParagraphMarker w)
                       (verse_words example_verse)) = [[0x5D0, 0x5D1], [0x5DC, 0x5D4]]"
    by code_simp
  have joined: "join (ascii '' '') [[0x5D0, 0x5D1], [0x5DC, 0x5D4]] = [0x5D0, 0x5D1, 32, 0x5DC, 0x5D4]"
    by code_simp
  from saveVerse_text_is_join [of example_verse] show ?thesis
    by (simp only: kept joined)
qed


section \<open>Words of the walk\<close>

text \<open>
  Claim C8.  No word entry that the walk pushes has the maqqef (U+05BE) as its text:
  a walk from a state whose words are free of it ends in such a state, and so the words
  of every verse that \<open>parseOsis\<close> returns, and of the record that \<open>saveVerse\<close> makes
  of it, are free of it.  Both loops that push words skip a token equal to the maqqef.
\<close>

theorem no_word_is_maqqef:
  "((\<forall>w\<in>set (words st). text' w \<noteq> MAQQEF)
      \<longrightarrow> (\<forall>w\<in>set (words (extractWords content st)). text' w \<noteq> MAQQEF))
   \<and> (\<forall>v\<in>set (parseOsis doc).
         (\<forall>w\<in>set (verse_words v). text' w \<noteq> MAQQEF)
         \<and> (\<forall>w\<in>set (data_words (saveVerse v)). text' w \<noteq> MAQQEF))"
proof (intro conjI impI ballI)
  fix w
  assume old: "\<forall>w\<in>set (words st). text' w \<noteq> MAQQEF"
    and w: "w \<in> set (words (extractWords content st))"
  from walk_emits(1) [of content st] obtain ws where
    "words (extractWords content st) = words st @ ws" "\<forall>w\<in>set ws. text' w \<noteq> MAQQEF"
    by blast
  with old w show "text' w \<noteq> MAQQEF" by auto
next
  fix v w
  assume "v \<in> set (parseOsis doc)" "w \<in> set (verse_words v)"
  then show "text' w \<noteq> MAQQEF" by (simp add: raw_words_inv)
next
  fix v w
  assume v: "v \<in> set (parseOsis doc)" and "w \<in> set (data_words (saveVerse v))"
  then have "w \<in> set (saveVerse_loop (verse_words v) [] 1)"
    by (simp add: saveVerse_def Let_def)
  from saveVerse_loop_set [OF this] obtain r q
    where "r \<in> set (verse_words v)" "w = saved_entry r q" by blast
  with v show "text' w \<noteq> MAQQEF" by (simp add: raw_words_inv saved_entry_fields)
qed

theorem no_word_is_maqqef_witness:
  "MAQQEF \<in> set (tokens [0x5E2, 0x5DC, 32, 0x5BE, 32, 0x5E4, 0x5E0, 0x5D9])
   \<and> length (parseOsis example_doc) = 1
   \<and> list_all (\<lambda>w. text' w \<noteq> MAQQEF) (verse_words (hd (parseOsis example_doc)))
   \<and> list_all (\<lambda>w. text' w \<noteq> MAQQEF) (data_words (saveVerse (hd (parseOsis example_doc))))
   \<and> list_all (\<lambda>w. text' w \<noteq> MAQQEF) (words (extractWords example_verse_1 init_state))"
proof -
  have tok: "MAQQEF \<in> set (tokens [0x5E2, 0x5DC, 32, 0x5BE, 32, 0x5E4, 0x5E0, 0x5D9])"
    by code_simp
  have len: "length (parseOsis example_doc) = 1"
    by code_simp
  then have mem: "hd (parseOsis example_doc) \<in> set (parseOsis example_doc)"
    by (cases "parseOsis example_doc") simp_all
  have init: "\<forall>w\<in>set (words init_state). text' w \<noteq> MAQQEF"
    by (simp add: init_state_def)
  from no_word_is_maqqef [of init_state example_verse_1 example_doc] mem init tok len
  show ?thesis
    by (simp add: list_all_iff)
qed

text \<open>
  Claim C9.  In the record that \<open>saveVerse\<close> makes of a verse returned by
  \<open>parseOsis\<close>, every word that has a lemma without a decimal digit has
  \<open>metadata.isPrefixOnly = true\<close> and no \<open>strongs\<close>.  (A word without a lemma is left
  unflagged by the test \<open>w.lemma && ...\<close>.)
\<close>

theorem prefix_only_flagged:
  assumes "v \<in> set (parseOsis doc)"
    and "w \<in> set (data_words (saveVerse v))"
    and "lemma' w = Some l"
    and "\<not> list_ex is_digit l"
  shows "(\<exists>m. metadata w = Some m \<and> map_of m (ascii ''isPrefixOnly'') = Some js_true)
         \<and> strongs w = None"
proof -
  from assms(2) have "w \<in> set (saveVerse_loop (verse_words v) [] 1)"
    by (simp add: saveVerse_def Let_def)
  from saveVerse_loop_set [OF this] obtain r q
    where r: "r \<in> set (verse_words v)" and w: "w = saved_entry r q" by blast
  from w assms(3) have lr: "lemma' r = Some l"
    by (simp add: saved_entry_fields)
  from raw_words_inv [OF assms(1) r] lr
  have ne: "l \<noteq> []"
    and st: "strongs r = (if extractStrongs (Some l) \<noteq> [] then Some (extractStrongs (Some l)) else None)"
    by auto
  from st assms(4) have "strongs r = None"
    by (simp add: extractStrongs_no_digit)
  moreover from ne lr assms(4)
  have "metadata (saved_entry r q)
          = Some (obj_set (ascii ''isPrefixOnly'') js_true
                    (case metadata r of None \<Rightarrow> [] | Some m \<Rightarrow> m))"
    by (simp add: saved_entry_def Let_def or_null_def)
  ultimately show ?thesis
    unfolding w by (simp add: saved_entry_fields map_of_obj_set)
qed

theorem prefix_only_flagged_witness:
  "hd (parseOsis example_doc) \<in> set (parseOsis example_doc)
   \<and> data_words (saveVerse (hd (parseOsis example_doc))) ! 2
       \<in> set (data_words (saveVerse (hd (parseOsis example_doc))))
   \<and> lemma' (data_words (saveVerse (hd (parseOsis example_doc))) ! 2) = Some (ascii ''l'')
   \<and> \<not> list_ex is_digit (ascii ''l'')
   \<and> (\<exists>m. metadata (data_words (saveVerse (hd (parseOsis example_doc))) ! 2) = Some m
           \<and> map_of m (ascii ''isPrefixOnly'') = Some js_true)
   \<and> strongs (data_words (saveVerse (hd (parseOsis example_doc))) ! 2) = None"
proof -
  let ?v = "hd (parseOsis example_doc)"
  let ?w = "data_words (saveVerse ?v) ! 2"
  have "length (parseOsis example_doc) = 1"
    by code_simp
  then have v: "?v \<in> set (parseOsis example_doc)"
    by (cases "parseOsis example_doc") simp_all
  have "length (data_words (saveVerse ?v)) = 3"
    by code_simp
  then have w: "?w \<in> set (data_words (saveVerse ?v))"
    by simp
  have l: "lemma' ?w = Some (ascii ''l'')"
    by code_simp
  have d: "\<not> list_ex is_digit (ascii ''l'')"
    by code_simp
  from prefix_only_flagged [OF v w l d] v w l d show ?thesis
    by simp
qed

text \<open>
  Claim C10.  A verse element whose walk pushes no word adds no record to the result
  of \<open>findVerses\<close>: the block for the verse leaves \<open>results\<close> as it is and only the
  search below the element goes on.  So every verse that \<open>parseOsis\<close> returns has at
  least one word.
\<close>

theorem empty_verse_omitted:
  "(words (extractWords_verse record init_state) = []
      \<longrightarrow> verse_block record results = results
          \<and> findVerses (JObj record) results = findVerses_values record results)
   \<and> (\<forall>v\<in>set (parseOsis doc). verse_words v \<noteq> [])"
proof (intro conjI impI ballI)
  assume e: "words (extractWords_verse record init_state) = []"
  with verse_block_cases [of "record" results]
  show b: "verse_block record results = results" by auto
  then show "findVerses (JObj record) results = findVerses_values record results"
    by simp
next
  fix v assume "v \<in> set (parseOsis doc)"
  from parseOsis_verses [OF this] show "verse_words v \<noteq> []" by blast
qed

theorem empty_verse_omitted_witness:
  "words (extractWords_verse example_verse_2 init_state) = []
   \<and> map_of example_verse_2 (ascii ''@_osisID'') = Some (JStr (ascii ''Gen.1.3''))
   \<and> verse_block example_verse_2 [] = []
   \<and> parseOsis (JObj example_verse_2) = []
   \<and> map book (parseOsis example_doc) = [ascii ''Gen'']"
proof -
  have e: "words (extractWords_verse example_verse_2 init_state) = []"
    by code_simp
  have i: "map_of example_verse_2 (ascii ''@_osisID'') = Some (JStr (ascii ''Gen.1.3''))"
    by code_simp
  have v: "findVerses_values example_verse_2 [] = []"
    by code_simp
  have d: "map book (parseOsis example_doc) = [ascii ''Gen'']"
    by code_simp
  from empty_verse_omitted [of example_verse_2 "[]" example_doc] e i v d show ?thesis
    by (simp add: parseOsis_def)
qed


section \<open>Ketiv and qere\<close>

text \<open>
  Claim C3.  A ketiv/qere pair as in Genesis 8:17 is a word element \<open>k\<close> typed
  \<open>x-ketiv\<close> and a note \<open>n\<close> that holds a reading \<open>r\<close> typed \<open>x-qere\<close>, which holds a
  word element \<open>q\<close>, without a type, with the lemma of the ketiv; each of the two word
  elements has one word of text and no child element, the lemma is not empty, the
  reading and the note have beside these only attributes and blank text, the note a
  catch word as well, and the type of the note does not start with \<open>x-\<close>.

  For every such pair the walk pushes exactly one word for the ketiv element, with the
  ketiv's text, the lemma and the tag \<open>ketiv\<close>, and exactly one word for the note, with
  the qere's text, the same lemma and the tag \<open>qere\<close>, whatever the state before; the
  note gives that one word when it is walked as an element, as the notes directly below
  a verse are, and when the loop over the notes of an element comes to it.  So in the
  walk of a verse, or of an element, whose \<open>w\<close> children have the ketiv among them and
  whose \<open>note\<close> is the note, the ketiv's word comes after the words of the \<open>w\<close> children
  before it, the qere's word after the words of the \<open>w\<close> children that follow, and
  nothing else is pushed until the walk goes on to the entries after the note.

  For Genesis 8:17 as the source has it, the walk pushes exactly two words with the
  lemma \<open>3318\<close>: the ketiv, tagged \<open>ketiv\<close>, and the word of the qere reading, tagged
  \<open>qere\<close>; they are the only tagged words of the verse, and neither has a null lemma.

  In general, every word that an element pushes for its inline text is tagged
  \<open>ketiv\<close> if the element's type is \<open>x-ketiv\<close>, else \<open>qere\<close> exactly when
  \<open>isInsideQere\<close> is set, else not at all.
\<close>

theorem ketiv_qere_pair:
  "(map_of k (ascii ''#text'') = Some (JStr kt)
      \<and> tokens (trim (remove_slashes kt)) = [ktok] \<and> ktok \<noteq> MAQQEF
      \<and> attr k (ascii ''@_type'') = Some (ascii ''x-ketiv'')
      \<and> attr k (ascii ''@_lemma'') = Some l \<and> l \<noteq> []
      \<and> (\<forall>(key, v)\<in>set k. startsWith key (ascii ''@_'') \<or> key = ascii ''#text'')
      \<and> map_of q (ascii ''#text'') = Some (JStr qt)
      \<and> tokens (trim (remove_slashes qt)) = [qtok] \<and> qtok \<noteq> MAQQEF
      \<and> attr q (ascii ''@_type'') = None
      \<and> attr q (ascii ''@_lemma'') = Some l
      \<and> (\<forall>(key, v)\<in>set q. startsWith key (ascii ''@_'') \<or> key = ascii ''#text'')
      \<and> r = ra @ (ascii ''w'', JObj q) # rb
      \<and> attr r (ascii ''@_type'') = Some (ascii ''x-qere'')
      \<and> (\<forall>(key, v)\<in>set (ra @ rb). startsWith key (ascii ''@_'')
             \<or> (key = ascii ''#text'' \<and> trim (remove_slashes (js_String v)) = []))
      \<and> n = na @ (ascii ''rdg'', JObj r) # nb
      \<and> (\<forall>(key, v)\<in>set (na @ nb). key = ascii ''catchWord'' \<or> startsWith key (ascii ''@_'')
             \<or> (key = ascii ''#text'' \<and> trim (remove_slashes (js_String v)) = []))
      \<and> (\<forall>ty. attr n (ascii ''@_type'') = Some ty \<longrightarrow> \<not> startsWith ty (ascii ''x-''))
    \<longrightarrow> (\<exists>eK eQ.
           text' eK = ktok \<and> lemma' eK = Some l \<and> variant eK = Some Ketiv
         \<and> text' eQ = qtok \<and> lemma' eQ = Some l \<and> variant eQ = Some Qere
         \<and> (\<forall>s. extractWords (JObj k) s
                  = s\<lparr>words := words s @ [eK\<lparr>position := pos s\<rparr>], pos := pos s + 1\<rparr>)
         \<and> (\<forall>s. extractWords (JObj n) s
                  = s\<lparr>words := words s @ [eQ\<lparr>position := pos s\<rparr>], pos := pos s + 1\<rparr>)
         \<and> (\<forall>s. extractWords_notes [JObj n] s
                  = s\<lparr>words := words s @ [eQ\<lparr>position := pos s\<rparr>], pos := pos s + 1\<rparr>)
         \<and> (\<forall>before after es s.
               extractWords_verse
                 ((ascii ''w'', JArr (before @ JObj k # after)) # (ascii ''note'', JObj n) # es) s
               = (let s1 = extractWords_items before s;
                      s2 = extractWords_items after
                             (s1\<lparr>words := words s1 @ [eK\<lparr>position := pos s1\<rparr>], pos := pos s1 + 1\<rparr>)
                  in extractWords_verse es
                       (s2\<lparr>words := words s2 @ [eQ\<lparr>position := pos s2\<rparr>], pos := pos s2 + 1\<rparr>)))
         \<and> (\<forall>before after es s.
               extractWords_entries
                 ((ascii ''w'', JArr (before @ JObj k # after)) # (ascii ''note'', JObj n) # es) s
               = (let s1 = extractWords_items before s;
                      s2 = extractWords_items after
                             (s1\<lparr>words := words s1 @ [eK\<lparr>position := pos s1\<rparr>], pos := pos s1 + 1\<rparr>)
                  in extractWords_entries es
                       (s2\<lparr>words := words s2 @ [eQ\<lparr>position := pos s2\<rparr>], pos := pos s2 + 1\<rparr>)))))
   \<and> length (parseOsis GEN_8_17_doc) = 1
   \<and> length (verse_words (hd (parseOsis GEN_8_17_doc))) = 22
   \<and> map (\<lambda>w. (text' w, variant w))
        (filter (\<lambda>w. lemma' w = Some (ascii ''3318'')) (verse_words (hd (parseOsis GEN_8_17_doc))))
      = [([0x5D4, 0x5D5, 0x5E6, 0x5D0], Some Ketiv),
         ([0x5D4, 0x5B7, 0x5D9, 0x5B0, 0x5E6, 0x5B5, 0x5D0], Some Qere)]
   \<and> map lemma' (filter (\<lambda>w. variant w \<noteq> None) (verse_words (hd (parseOsis GEN_8_17_doc))))
      = [Some (ascii ''3318''), Some (ascii ''3318'')]
   \<and> (extract_inline elem st = Some st' \<longrightarrow>
        (\<forall>w\<in>set (drop (length (words st)) (words st')).
           variant w = (if attr elem (ascii ''@_type'') = Some (ascii ''x-ketiv'') then Some Ketiv
                        else if isInsideQere st then Some Qere else None)))"
proof (intro conjI)
  show "length (parseOsis GEN_8_17_doc) = 1"
    by code_simp
  show "length (verse_words (hd (parseOsis GEN_8_17_doc))) = 22"
    by code_simp
  show "map (\<lambda>w. (text' w, variant w))
        (filter (\<lambda>w. lemma' w = Some (ascii ''3318'')) (verse_words (hd (parseOsis GEN_8_17_doc))))
      = [([0x5D4, 0x5D5, 0x5E6, 0x5D0], Some Ketiv),
         ([0x5D4, 0x5B7, 0x5D9, 0x5B0, 0x5E6, 0x5B5, 0x5D0], Some Qere)]"
    by code_simp
  show "map lemma' (filter (\<lambda>w. variant w \<noteq> None) (verse_words (hd (parseOsis GEN_8_17_doc))))
      = [Some (ascii ''3318''), Some (ascii ''3318'')]"
    by code_simp
  show "extract_inline elem st = Some st' \<longrightarrow>
        (\<forall>w\<in>set (drop (length (words st)) (words st')).
           variant w = (if attr elem (ascii ''@_type'') = Some (ascii ''x-ketiv'') then Some Ketiv
                        else if isInsideQere st then Some Qere else None))"
    using extract_inline_new_words [of elem st st'] by blast
next
  show "map_of k (ascii ''#text'') = Some (JStr kt)
      \<and> tokens (trim (remove_slashes kt)) = [ktok] \<and> ktok \<noteq> MAQQEF
      \<and> attr k (ascii ''@_type'') = Some (ascii ''x-ketiv'')
      \<and> attr k (ascii ''@_lemma'') = Some l \<and> l \<noteq> []
      \<and> (\<forall>(key, v)\<in>set k. startsWith key (ascii ''@_'') \<or> key = ascii ''#text'')
      \<and> map_of q (ascii ''#text'') = Some (JStr qt)
      \<and> tokens (trim (remove_slashes qt)) = [qtok] \<and> qtok \<noteq> MAQQEF
      \<and> attr q (ascii ''@_type'') = None
      \<and> attr q (ascii ''@_lemma'') = Some l
      \<and> (\<forall>(key, v)\<in>set q. startsWith key (ascii ''@_'') \<or> key = ascii ''#text'')
      \<and> r = ra @ (ascii ''w'', JObj q) # rb
      \<and> attr r (ascii ''@_type'') = Some (ascii ''x-qere'')
      \<and> (\<forall>(key, v)\<in>set (ra @ rb). startsWith key (ascii ''@_'')
             \<or> (key = ascii ''#text'' \<and> trim (remove_slashes (js_String v)) = []))
      \<and> n = na @ (ascii ''rdg'', JObj r) # nb
      \<and> (\<forall>(key, v)\<in>set (na @ nb). key = ascii ''catchWord'' \<or> startsWith key (ascii ''@_'')
             \<or> (key = ascii ''#text'' \<and> trim (remove_slashes (js_String v)) = []))
      \<and> (\<forall>ty. attr n (ascii ''@_type'') = Some ty \<longrightarrow> \<not> startsWith ty (ascii ''x-''))
    \<longrightarrow> (\<exists>eK eQ.
           text' eK = ktok \<and> lemma' eK = Some l \<and> variant eK = Some Ketiv
         \<and> text' eQ = qtok \<and> lemma' eQ = Some l \<and> variant eQ = Some Qere
         \<and> (\<forall>s. extractWords (JObj k) s
                  = s\<lparr>words := words s @ [eK\<lparr>position := pos s\<rparr>], pos := pos s + 1\<rparr>)
         \<and> (\<forall>s. extractWords (JObj n) s
                  = s\<lparr>words := words s @ [eQ\<lparr>position := pos s\<rparr>], pos := pos s + 1\<rparr>)
         \<and> (\<forall>s. extractWords_notes [JObj n] s
                  = s\<lparr>words := words s @ [eQ\<lparr>position := pos s\<rparr>], pos := pos s + 1\<rparr>)
         \<and> (\<forall>before after es s.
               extractWords_verse
                 ((ascii ''w'', JArr (before @ JObj k # after)) # (ascii ''note'', JObj n) # es) s
               = (let s1 = extractWords_items before s;
                      s2 = extractWords_items after
                             (s1\<lparr>words := words s1 @ [eK\<lparr>position := pos s1\<rparr>], pos := pos s1 + 1\<rparr>)
                  in extractWords_verse es
                       (s2\<lparr>words := words s2 @ [eQ\<lparr>position := pos s2\<rparr>], pos := pos s2 + 1\<rparr>)))
         \<and> (\<forall>before after es s.
               extractWords_entries
                 ((ascii ''w'', JArr (before @ JObj k # after)) # (ascii ''note'', JObj n) # es) s
               = (let s1 = extractWords_items before s;
                      s2 = extractWords_items after
                             (s1\<lparr>words := words s1 @ [eK\<lparr>position := pos s1\<rparr>], pos := pos s1 + 1\<rparr>)
                  in extractWords_entries es
                       (s2\<lparr>words := words s2 @ [eQ\<lparr>position := pos s2\<rparr>], pos := pos s2 + 1\<rparr>))))"
    (is "?shape \<longrightarrow> ?pair")
  proof (intro impI, elim conjE)
    assume k: "map_of k (ascii ''#text'') = Some (JStr kt)"
      "tokens (trim (remove_slashes kt)) = [ktok]" "ktok \<noteq> MAQQEF"
      "attr k (ascii ''@_type'') = Some (ascii ''x-ketiv'')"
      "attr k (ascii ''@_lemma'') = Some l" "l \<noteq> []"
      "\<forall>(key, v)\<in>set k. startsWith key (ascii ''@_'') \<or> key = ascii ''#text''"
    assume q: "map_of q (ascii ''#text'') = Some (JStr qt)"
      "tokens (trim (remove_slashes qt)) = [qtok]" "qtok \<noteq> MAQQEF"
      "attr q (ascii ''@_type'') = None"
      "attr q (ascii ''@_lemma'') = Some l" "l \<noteq> []"
      "\<forall>(key, v)\<in>set q. startsWith key (ascii ''@_'') \<or> key = ascii ''#text''"
    assume r: "r = ra @ (ascii ''w'', JObj q) # rb"
      "attr r (ascii ''@_type'') = Some (ascii ''x-qere'')"
      "\<forall>(key, v)\<in>set (ra @ rb). startsWith key (ascii ''@_'')
             \<or> (key = ascii ''#text'' \<and> trim (remove_slashes (js_String v)) = [])"
    assume n: "n = na @ (ascii ''rdg'', JObj r) # nb"
      "\<forall>(key, v)\<in>set (na @ nb). key = ascii ''catchWord'' \<or> startsWith key (ascii ''@_'')
             \<or> (key = ascii ''#text'' \<and> trim (remove_slashes (js_String v)) = [])"
      "\<forall>ty. attr n (ascii ''@_type'') = Some ty \<longrightarrow> \<not> startsWith ty (ascii ''x-'')"
    define eK where "eK =
      \<lparr>position = 0, text' = ktok, lemma' = Some l,
       morph = or_null (attr k (ascii ''@_morph'')),
       strongs = (if extractStrongs (Some l) \<noteq> [] then Some (extractStrongs (Some l)) else None),
       variant = Some Ketiv, metadata = None,
       source = Some \<lparr>src_lemma = Some l, src_morph = or_null (attr k (ascii ''@_morph'')),
                      src_type = or_null (attr k (ascii ''@_type''))\<rparr>\<rparr>"
    define eQ where "eQ =
      \<lparr>position = 0, text' = qtok, lemma' = Some l,
       morph = or_null (attr q (ascii ''@_morph'')),
       strongs = (if extractStrongs (Some l) \<noteq> [] then Some (extractStrongs (Some l)) else None),
       variant = Some Qere, metadata = None,
       source = Some \<lparr>src_lemma = Some l, src_morph = or_null (attr q (ascii ''@_morph'')),
                      src_type = None\<rparr>\<rparr>"
    have fields: "text' eK = ktok" "lemma' eK = Some l" "variant eK = Some Ketiv"
      "text' eQ = qtok" "lemma' eQ = Some l" "variant eQ = Some Qere"
      by (simp_all add: eK_def eQ_def)
    have ketiv: "extractWords (JObj k) s
                 = s\<lparr>words := words s @ [eK\<lparr>position := pos s\<rparr>], pos := pos s + 1\<rparr>" for s
      using word_element_pushed [OF k(1,2,3) _ k(5,6,7), of s] k(4)
      by (simp add: eK_def)
    have rdg: "extractWords_rdgs [JObj r] s
               = s\<lparr>words := words s @ [eQ\<lparr>position := pos s\<rparr>], pos := pos s + 1\<rparr>" for s
      using qere_reading_walked [OF q r, of s]
      by (simp add: eQ_def)
    have note_elem: "extractWords (JObj n) s
               = s\<lparr>words := words s @ [eQ\<lparr>position := pos s\<rparr>], pos := pos s + 1\<rparr>" for s
      using qere_note_walked(1) [OF n, of s] rdg [of s] by simp
    have note_loop: "extractWords_notes [JObj n] s
               = s\<lparr>words := words s @ [eQ\<lparr>position := pos s\<rparr>], pos := pos s + 1\<rparr>" for s
      using qere_note_walked(2) [OF n, of s] rdg [of s] by simp
    have w: "ascii ''w'' \<noteq> ascii ''catchWord''" "ascii ''w'' \<noteq> ascii ''rdg''"
      "ascii ''w'' \<noteq> ascii ''note''" "\<not> startsWith (ascii ''w'') (ascii ''@_'')"
      "ascii ''w'' \<noteq> ascii ''#text''" "\<not> startsWith (ascii ''note'') (ascii ''@_'')"
      by (simp_all add: ascii_def startsWith_def)
    have items: "extractWords (JArr (before @ JObj k # after)) s
             = extractWords_items after
                 ((extractWords_items before s)
                    \<lparr>words := words (extractWords_items before s)
                               @ [eK\<lparr>position := pos (extractWords_items before s)\<rparr>],
                     pos := pos (extractWords_items before s) + 1\<rparr>)" for before after s
      by (simp add: extractWords.simps(3) extractWords_items_append ketiv)
    have verse: "extractWords_verse
                 ((ascii ''w'', JArr (before @ JObj k # after)) # (ascii ''note'', JObj n) # es) s
               = (let s1 = extractWords_items before s;
                      s2 = extractWords_items after
                             (s1\<lparr>words := words s1 @ [eK\<lparr>position := pos s1\<rparr>], pos := pos s1 + 1\<rparr>)
                  in extractWords_verse es
                       (s2\<lparr>words := words s2 @ [eQ\<lparr>position := pos s2\<rparr>], pos := pos s2 + 1\<rparr>))"
      for before after es s
      using w by (simp add: items note_elem Let_def)
    have entries: "extractWords_entries
                 ((ascii ''w'', JArr (before @ JObj k # after)) # (ascii ''note'', JObj n) # es) s
               = (let s1 = extractWords_items before s;
                      s2 = extractWords_items after
                             (s1\<lparr>words := words s1 @ [eK\<lparr>position := pos s1\<rparr>], pos := pos s1 + 1\<rparr>)
                  in extractWords_entries es
                       (s2\<lparr>words := words s2 @ [eQ\<lparr>position := pos s2\<rparr>], pos := pos s2 + 1\<rparr>))"
      for before after es s
      using w keys_distinct
      by (simp add: items note_loop Let_def as_array_def del: extractWords_notes.simps)
    from fields ketiv note_elem note_loop verse entries show ?pair
      by blast
  qed
qed

theorem ketiv_qere_pair_witness:
  "map (\<lambda>w. (position w, text' w, lemma' w, variant w))
       (words (extractWords_verse
                 [(ascii ''w'', JArr [JObj GEN_8_17_ketiv]), (ascii ''note'', JObj GEN_8_17_note)]
                 init_state))
     = [(1, [0x5D4, 0x5D5, 0x5E6, 0x5D0], Some (ascii ''3318''), Some Ketiv),
        (2, [0x5D4, 0x5B7, 0x5D9, 0x5B0, 0x5E6, 0x5B5, 0x5D0], Some (ascii ''3318''), Some Qere)]
   \<and> map (\<lambda>w. (position w, text' w, lemma' w, variant w))
       (words (extractWords_entries
                 [(ascii ''w'', JArr [JObj GEN_8_17_ketiv]), (ascii ''note'', JObj GEN_8_17_note)]
                 init_state))
     = [(1, [0x5D4, 0x5D5, 0x5E6, 0x5D0], Some (ascii ''3318''), Some Ketiv),
        (2, [0x5D4, 0x5B7, 0x5D9, 0x5B0, 0x5E6, 0x5B5, 0x5D0], Some (ascii ''3318''), Some Qere)]
   \<and> (case GEN_8_17 of
         JObj es \<Rightarrow>
           map_of es (ascii ''note'') = Some (JObj GEN_8_17_note)
           \<and> (case map_of es (ascii ''w'') of
                Some (JArr ws) \<Rightarrow> ws ! 13 = JObj GEN_8_17_ketiv
              | _ \<Rightarrow> False)
       | _ \<Rightarrow> False)
   \<and> extract_inline example_word_elem (init_state\<lparr>isInsideQere := True\<rparr>)
     = Some (push_elem_words None (Some (ascii ''854'')) None [ascii ''H854'']
               [[0x5D0, 0x5B4, 0x5EA, 0x5B8, 0x5BC, 0x5DA, 0x5B0]] (init_state\<lparr>isInsideQere := True\<rparr>))
   \<and> list_all (\<lambda>w. variant w = Some Qere)
        (words (push_elem_words None (Some (ascii ''854'')) None [ascii ''H854'']
               [[0x5D0, 0x5B4, 0x5EA, 0x5B8, 0x5BC, 0x5DA, 0x5B0]] (init_state\<lparr>isInsideQere := True\<rparr>)))
   \<and> length (words (push_elem_words None (Some (ascii ''854'')) None [ascii ''H854'']
               [[0x5D0, 0x5B4, 0x5EA, 0x5B8, 0x5BC, 0x5DA, 0x5B0]] (init_state\<lparr>isInsideQere := True\<rparr>))) = 1"
proof -
  let ?st = "init_state\<lparr>isInsideQere := True\<rparr>"
  let ?st' = "push_elem_words None (Some (ascii ''854'')) None [ascii ''H854'']
               [[0x5D0, 0x5B4, 0x5EA, 0x5B8, 0x5BC, 0x5DA, 0x5B0]] ?st"
  let ?kt = "[0x5D4, 0x5D5, 0x5E6, 0x5D0] :: jstring"
  let ?qt = "[0x5D4, 0x5B7, 0x5D9, 0x5B0, 0x5E6, 0x5B5, 0x5D0] :: jstring"
  let ?rb = "[(ascii ''#text'', JStr [10, 32, 32, 32, 32, 32, 32, 10, 32, 32, 32, 32]),
              (ascii ''@_type'', JStr (ascii ''x-qere''))]"
  let ?na = "[(ascii ''catchWord'', JStr [0x5D4, 0x5D5, 0x5E6, 0x5D0])]"
  let ?nb = "[(ascii ''#text'', JStr [10, 32, 32, 32, 32, 10, 32, 32, 32, 32, 10, 32, 32]),
              (ascii ''@_type'', JStr (ascii ''variant''))]"
  have k: "map_of GEN_8_17_ketiv (ascii ''#text'') = Some (JStr ?kt)"
    "tokens (trim (remove_slashes ?kt)) = [?kt]" "?kt \<noteq> MAQQEF"
    "attr GEN_8_17_ketiv (ascii ''@_type'') = Some (ascii ''x-ketiv'')"
    "attr GEN_8_17_ketiv (ascii ''@_lemma'') = Some (ascii ''3318'')" "ascii ''3318'' \<noteq> []"
    "\<forall>(key, v)\<in>set GEN_8_17_ketiv. startsWith key (ascii ''@_'') \<or> key = ascii ''#text''"
    by code_simp+
  have q: "map_of GEN_8_17_qere (ascii ''#text'') = Some (JStr ?qt)"
    "tokens (trim (remove_slashes ?qt)) = [?qt]" "?qt \<noteq> MAQQEF"
    "attr GEN_8_17_qere (ascii ''@_type'') = None"
    "attr GEN_8_17_qere (ascii ''@_lemma'') = Some (ascii ''3318'')"
    "\<forall>(key, v)\<in>set GEN_8_17_qere. startsWith key (ascii ''@_'') \<or> key = ascii ''#text''"
    by code_simp+
  have r: "GEN_8_17_rdg = [] @ (ascii ''w'', JObj GEN_8_17_qere) # ?rb"
    by (simp add: GEN_8_17_rdg_def)
  have r': "attr GEN_8_17_rdg (ascii ''@_type'') = Some (ascii ''x-qere'')"
    "\<forall>(key, v)\<in>set ([] @ ?rb). startsWith key (ascii ''@_'')
        \<or> (key = ascii ''#text'' \<and> trim (remove_slashes (js_String v)) = [])"
    by code_simp+
  have n: "GEN_8_17_note = ?na @ (ascii ''rdg'', JObj GEN_8_17_rdg) # ?nb"
    by (simp add: GEN_8_17_note_def)
  have n': "\<forall>(key, v)\<in>set (?na @ ?nb). key = ascii ''catchWord'' \<or> startsWith key (ascii ''@_'')
        \<or> (key = ascii ''#text'' \<and> trim (remove_slashes (js_String v)) = [])"
    by code_simp
  have nt: "attr GEN_8_17_note (ascii ''@_type'') = Some (ascii ''variant'')"
    "\<not> startsWith (ascii ''variant'') (ascii ''x-'')"
    by code_simp+
  then have n'': "\<forall>ty. attr GEN_8_17_note (ascii ''@_type'') = Some ty
                    \<longrightarrow> \<not> startsWith ty (ascii ''x-'')"
    by simp
  have tie: "(case GEN_8_17 of
         JObj es \<Rightarrow>
           map_of es (ascii ''note'') = Some (JObj GEN_8_17_note)
           \<and> (case map_of es (ascii ''w'') of
                Some (JArr ws) \<Rightarrow> ws ! 13 = JObj GEN_8_17_ketiv
              | _ \<Rightarrow> False)
       | _ \<Rightarrow> False)"
    by code_simp
  have shape:
    "map_of GEN_8_17_ketiv (ascii ''#text'') = Some (JStr ?kt)
      \<and> tokens (trim (remove_slashes ?kt)) = [?kt] \<and> ?kt \<noteq> MAQQEF
      \<and> attr GEN_8_17_ketiv (ascii ''@_type'') = Some (ascii ''x-ketiv'')
      \<and> attr GEN_8_17_ketiv (ascii ''@_lemma'') = Some (ascii ''3318'') \<and> ascii ''3318'' \<noteq> []
      \<and> (\<forall>(key, v)\<in>set GEN_8_17_ketiv. startsWith key (ascii ''@_'') \<or> key = ascii ''#text'')
      \<and> map_of GEN_8_17_qere (ascii ''#text'') = Some (JStr ?qt)
      \<and> tokens (trim (remove_slashes ?qt)) = [?qt] \<and> ?qt \<noteq> MAQQEF
      \<and> attr GEN_8_17_qere (ascii ''@_type'') = None
      \<and> attr GEN_8_17_qere (ascii ''@_lemma'') = Some (ascii ''3318'')
      \<and> (\<forall>(key, v)\<in>set GEN_8_17_qere. startsWith key (ascii ''@_'') \<or> key = ascii ''#text'')
      \<and> GEN_8_17_rdg = [] @ (ascii ''w'', JObj GEN_8_17_qere) # ?rb
      \<and> attr GEN_8_17_rdg (ascii ''@_type'') = Some (ascii ''x-qere'')
      \<and> (\<forall>(key, v)\<in>set ([] @ ?rb). startsWith key (ascii ''@_'')
             \<or> (key = ascii ''#text'' \<and> trim (remove_slashes (js_String v)) = []))
      \<and> GEN_8_17_note = ?na @ (ascii ''rdg'', JObj GEN_8_17_rdg) # ?nb
      \<and> (\<forall>(key, v)\<in>set (?na @ ?nb). key = ascii ''catchWord'' \<or> startsWith key (ascii ''@_'')
             \<or> (key = ascii ''#text'' \<and> trim (remove_slashes (js_String v)) = []))
      \<and> (\<forall>ty. attr GEN_8_17_note (ascii ''@_type'') = Some ty
             \<longrightarrow> \<not> startsWith ty (ascii ''x-''))"
    by (intro conjI k q r r' n n' n'')
  note pair = ketiv_qere_pair [where k = GEN_8_17_ketiv and kt = ?kt and ktok = ?kt
       and l = "ascii ''3318''" and q = GEN_8_17_qere and qt = ?qt and qtok = ?qt
       and r = GEN_8_17_rdg and ra = "[]" and rb = ?rb
       and n = GEN_8_17_note and na = ?na and nb = ?nb
       and elem = example_word_elem and st = ?st and st' = ?st']
  have i: "extract_inline example_word_elem ?st = Some ?st'"
    by code_simp
  have t: "attr example_word_elem (ascii ''@_type'') \<noteq> Some (ascii ''x-ketiv'')"
    by code_simp
  have len: "length (words ?st') = 1"
    by code_simp
  have fl: "isInsideQere ?st" "words ?st = []"
    by (simp_all add: init_state_def)
  from pair [THEN conjunct2, THEN conjunct2, THEN conjunct2, THEN conjunct2, THEN conjunct2,
             THEN mp, OF i]
  have "\<forall>w\<in>set (drop (length (words ?st)) (words ?st')).
           variant w = (if attr example_word_elem (ascii ''@_type'') = Some (ascii ''x-ketiv'')
                        then Some Ketiv else if isInsideQere ?st then Some Qere else None)" .
  with t fl have tagged: "list_all (\<lambda>w. variant w = Some Qere) (words ?st')"
    by (simp add: list_all_iff)
  from pair [THEN conjunct1, THEN mp, OF shape]
  obtain eK eQ where
    f: "text' eK = ?kt" "lemma' eK = Some (ascii ''3318'')" "variant eK = Some Ketiv"
       "text' eQ = ?qt" "lemma' eQ = Some (ascii ''3318'')" "variant eQ = Some Qere"
    and verse: "\<forall>before after es s.
       extractWords_verse
          ((ascii ''w'', JArr (before @ JObj GEN_8_17_ketiv # after))
           # (ascii ''note'', JObj GEN_8_17_note) # es) s
       = (let s1 = extractWords_items before s;
              s2 = extractWords_items after
                     (s1\<lparr>words := words s1 @ [eK\<lparr>position := pos s1\<rparr>], pos := pos s1 + 1\<rparr>)
          in extractWords_verse es
               (s2\<lparr>words := words s2 @ [eQ\<lparr>position := pos s2\<rparr>], pos := pos s2 + 1\<rparr>))"
    and entries: "\<forall>before after es s.
       extractWords_entries
          ((ascii ''w'', JArr (before @ JObj GEN_8_17_ketiv # after))
           # (ascii ''note'', JObj GEN_8_17_note) # es) s
       = (let s1 = extractWords_items before s;
              s2 = extractWords_items after
                     (s1\<lparr>words := words s1 @ [eK\<lparr>position := pos s1\<rparr>], pos := pos s1 + 1\<rparr>)
          in extractWords_entries es
               (s2\<lparr>words := words s2 @ [eQ\<lparr>position := pos s2\<rparr>], pos := pos s2 + 1\<rparr>))"
    by blast
  have "words (extractWords_verse
                 [(ascii ''w'', JArr [JObj GEN_8_17_ketiv]), (ascii ''note'', JObj GEN_8_17_note)]
                 init_state)
        = [eK\<lparr>position := 1\<rparr>, eQ\<lparr>position := 2\<rparr>]"
    using verse [rule_format, of "[]" "[]" "[]" init_state] by (simp add: init_state_def Let_def)
  moreover have "words (extractWords_entries
                 [(ascii ''w'', JArr [JObj GEN_8_17_ketiv]), (ascii ''note'', JObj GEN_8_17_note)]
                 init_state)
        = [eK\<lparr>position := 1\<rparr>, eQ\<lparr>position := 2\<rparr>]"
    using entries [rule_format, of "[]" "[]" "[]" init_state] by (simp add: init_state_def Let_def)
  ultimately show ?thesis
    using f tie i tagged len by simp
qed

text \<open>
  Claim C5.  For a reading typed \<open>x-qere\<close> the loop over the readings saves
  \<open>isInsideQere\<close>, walks the reading with the flag set, and puts the saved value back
  before it goes on.  Every walk therefore leaves the flag as it found it, and an
  element that pushes its words after any earlier content has been walked from a state
  with the flag unset, a note with a qere reading included, tags none of them \<open>qere\<close>.
  The words of a text leaf are never tagged.
\<close>

theorem qere_flag_restored:
  "(attr r (ascii ''@_type'') = Some (ascii ''x-qere'') \<longrightarrow>
      extractWords_rdgs (JObj r # rdgs) st
        = extractWords_rdgs rdgs
            ((extractWords (JObj r) (st\<lparr>isInsideQere := True\<rparr>))\<lparr>isInsideQere := isInsideQere st\<rparr>))
   \<and> isInsideQere (extractWords_rdgs rdgs st) = isInsideQere st
   \<and> isInsideQere (extractWords_notes ns st) = isInsideQere st
   \<and> isInsideQere (extractWords_entries es st) = isInsideQere st
   \<and> isInsideQere (extractWords content st) = isInsideQere st
   \<and> isInsideQere (extractWords_verse es st) = isInsideQere st
   \<and> (\<not> isInsideQere st \<longrightarrow> extract_inline elem (extractWords content st) = Some st' \<longrightarrow>
        (\<forall>w\<in>set (drop (length (words (extractWords content st))) (words st')).
           variant w \<noteq> Some Qere))
   \<and> (\<forall>w\<in>set (drop (length (words st)) (words (extract_leaf leaf st))). variant w = None)"
proof (intro conjI impI ballI)
  assume "attr r (ascii ''@_type'') = Some (ascii ''x-qere'')"
  then show "extractWords_rdgs (JObj r # rdgs) st
        = extractWords_rdgs rdgs
            ((extractWords (JObj r) (st\<lparr>isInsideQere := True\<rparr>))\<lparr>isInsideQere := isInsideQere st\<rparr>)"
    by (simp add: Let_def)
next
  show "isInsideQere (extractWords_rdgs rdgs st) = isInsideQere st"
    using walk_emits(4) [of rdgs st] by blast
  show "isInsideQere (extractWords_notes ns st) = isInsideQere st"
    using walk_emits(5) [of ns st] by blast
  show "isInsideQere (extractWords_entries es st) = isInsideQere st"
    using walk_emits(3) [of es st] by blast
  show "isInsideQere (extractWords content st) = isInsideQere st"
    using walk_emits(1) [of content st] by blast
  show "isInsideQere (extractWords_verse es st) = isInsideQere st"
    by (rule extractWords_verse_flag)
next
  fix w
  assume f: "\<not> isInsideQere st"
    and i: "extract_inline elem (extractWords content st) = Some st'"
    and w: "w \<in> set (drop (length (words (extractWords content st))) (words st'))"
  have "isInsideQere (extractWords content st) = isInsideQere st"
    using walk_emits(1) [of content st] by blast
  with f extract_inline_new_words [OF i w] show "variant w \<noteq> Some Qere"
    by (simp split: if_splits)
next
  fix w
  assume w: "w \<in> set (drop (length (words st)) (words (extract_leaf leaf st)))"
  from extract_leaf_emits [of leaf st] obtain ws where
    "words (extract_leaf leaf st) = words st @ ws" "\<forall>w\<in>set ws. variant w = None"
    by blast
  with w show "variant w = None" by simp
qed

theorem qere_flag_restored_witness:
  "map variant (words (extractWords example_qere_note init_state)) = [None, None, None, Some Qere]
   \<and> \<not> isInsideQere (extractWords example_qere_note init_state)
   \<and> length (words (the (extract_inline example_word_elem
                          (extractWords example_qere_note init_state)))) = 5
   \<and> list_all (\<lambda>w. variant w \<noteq> Some Qere)
        (drop 4 (words (the (extract_inline example_word_elem
                               (extractWords example_qere_note init_state)))))"
proof -
  let ?st1 = "extractWords example_qere_note init_state"
  let ?st' = "the (extract_inline example_word_elem ?st1)"
  have v: "map variant (words ?st1) = [None, None, None, Some Qere]"
    by code_simp
  have len: "length (words ?st1) = 4"
    by code_simp
  have len': "length (words ?st') = 5"
    by code_simp
  have f: "\<not> isInsideQere init_state"
    by (simp add: init_state_def)
  have i: "extract_inline example_word_elem ?st1 = Some ?st'"
    by code_simp
  from qere_flag_restored [of _ _ init_state _ _ example_qere_note example_word_elem ?st'] f i
  have "isInsideQere ?st1 = isInsideQere init_state"
    and "\<forall>w\<in>set (drop (length (words ?st1)) (words ?st')). variant w \<noteq> Some Qere"
    by blast+
  with f v len len' show ?thesis
    by (simp add: list_all_iff)
qed

text \<open>
  Claim C4, as stated, fails for a reading directly below the verse element.  The loop
  of \<open>findVerses\<close> over the children of the verse hands every one of them to
  \<open>extractWords\<close> without looking at its key, so a reading there is walked as an
  ordinary element whatever its type: for
  \<open><verse osisID="Gen.1.1"><rdg type="x-accent"><w lemma="1">X</w></rdg></verse>\<close>
  the word \<open>X\<close> of the reading typed \<open>x-accent\<close> is pushed, and the verse has it in the
  result of \<open>parseOsis\<close>.
\<close>

theorem verse_level_rdg_counterexample:
  "map text' (words (extractWords_verse
       [(ascii ''rdg'',
           JObj [(ascii ''w'', JObj [(ascii ''#text'', JStr (ascii ''X'')),
                                     (ascii ''@_lemma'', JStr (ascii ''1''))]),
                 (ascii ''@_type'', JStr (ascii ''x-accent''))]),
        (ascii ''@_osisID'', JStr (ascii ''Gen.1.1''))]
       init_state))
     = [ascii ''X'']
   \<and> map (\<lambda>v. map text' (verse_words v))
       (parseOsis (JObj [(ascii ''verse'',
          JObj [(ascii ''rdg'',
                   JObj [(ascii ''w'', JObj [(ascii ''#text'', JStr (ascii ''X'')),
                                             (ascii ''@_lemma'', JStr (ascii ''1''))]),
                         (ascii ''@_type'', JStr (ascii ''x-accent''))]),
                (ascii ''@_osisID'', JStr (ascii ''Gen.1.1''))])]))
     = [[ascii ''X'']]"
  by code_simp

text \<open>
  Claim C4, amended.  The loop over the readings, which the walk runs for the key
  \<open>rdg\<close> of an element and for the \<open>rdg\<close> of a note under the key \<open>note\<close> of an element,
  passes by every reading that is not typed \<open>x-qere\<close>, \<open>x-accent\<close> for one: such a
  reading adds no word, so the key \<open>rdg\<close> of an element and the \<open>rdg\<close> of a note change
  nothing when none of the readings is typed \<open>x-qere\<close>; and a note that has beside
  such readings only a catch word, attributes and blank text, walked as an element the
  way the notes directly below a verse are, changes nothing either.  The loop over the
  entries of the verse element does not tell the keys apart: a reading directly below
  the verse goes to \<open>extractWords\<close> like any other child.
\<close>

theorem only_qere_readings_walked:
  assumes "\<forall>r. JObj r \<in> set (as_array rdgValue)
              \<longrightarrow> attr r (ascii ''@_type'') \<noteq> Some (ascii ''x-qere'')"
  shows "extractWords_rdgs (as_array rdgValue) st = st
    \<and> extractWords_entries ((ascii ''rdg'', rdgValue) # es) st = extractWords_entries es st
    \<and> (map_of noteObj (ascii ''rdg'') = Some rdgValue \<longrightarrow>
         extractWords_entries ((ascii ''note'', JObj noteObj) # es) st = extractWords_entries es st)
    \<and> (extract_inline [(ascii ''catchWord'', c), (ascii ''rdg'', rdgValue), (ascii ''@_type'', t)] st
          = Some st \<longrightarrow>
         extractWords (JObj [(ascii ''catchWord'', c), (ascii ''rdg'', rdgValue), (ascii ''@_type'', t)]) st
           = st)
    \<and> ((\<forall>r. rdg = JObj r \<longrightarrow> attr r (ascii ''@_type'') \<noteq> Some (ascii ''x-qere'')) \<longrightarrow>
         extractWords_rdgs (rdg # rdgs) st = extractWords_rdgs rdgs st)
    \<and> extractWords_verse ((ascii ''rdg'', v) # es) st = extractWords_verse es (extractWords v st)
    \<and> ((\<forall>(key, v)\<in>set n. key = ascii ''catchWord'' \<or> startsWith key (ascii ''@_'')
             \<or> (key = ascii ''#text'' \<and> trim (remove_slashes (js_String v)) = [])
             \<or> (key = ascii ''rdg'' \<and> v = rdgValue))
         \<longrightarrow> extractWords (JObj n) st = st)"
proof (intro conjI impI)
  {
    assume n: "\<forall>(key, v)\<in>set n. key = ascii ''catchWord'' \<or> startsWith key (ascii ''@_'')
             \<or> (key = ascii ''#text'' \<and> trim (remove_slashes (js_String v)) = [])
             \<or> (key = ascii ''rdg'' \<and> v = rdgValue)"
    have "extractWords_entries n s = s" for s
      using n assms by (intro extractWords_entries_skipped) fastforce
    moreover have "\<not> startsWith (ascii ''#text'') (ascii ''@_'')"
      "ascii ''#text'' \<noteq> ascii ''catchWord''" "ascii ''#text'' \<noteq> ascii ''rdg''"
      by (simp_all add: startsWith_def ascii_def)
    with n have "\<forall>(key, v)\<in>set n. key = ascii ''#text'' \<longrightarrow>
                   trim (remove_slashes (js_String v)) = []"
      by fastforce
    then have "extract_inline n st = Some st \<or> extract_inline n st = None"
      by (rule extract_inline_blank_cases)
    ultimately show "extractWords (JObj n) st = st"
      by (auto simp: extractWords.simps)
  }
  show "extractWords_rdgs (rdg # rdgs) st = extractWords_rdgs rdgs st"
    if "\<forall>r. rdg = JObj r \<longrightarrow> attr r (ascii ''@_type'') \<noteq> Some (ascii ''x-qere'')"
    using that by (cases rdg) simp_all
  show "extractWords_verse ((ascii ''rdg'', v) # es) st = extractWords_verse es (extractWords v st)"
    by (simp add: startsWith_def ascii_def)
  show r: "extractWords_rdgs (as_array rdgValue) st = st"
    using assms by (rule extractWords_rdgs_no_qere)
  show "extractWords_entries ((ascii ''rdg'', rdgValue) # es) st = extractWords_entries es st"
    by (simp add: keys_distinct r)
  {
    assume "map_of noteObj (ascii ''rdg'') = Some rdgValue"
    then have "extractWords_notes [JObj noteObj] st = st"
      by (simp add: r)
    then show "extractWords_entries ((ascii ''note'', JObj noteObj) # es) st
               = extractWords_entries es st"
      by (simp add: keys_distinct as_array_def)
  }
  {
    let ?n = "[(ascii ''catchWord'', c), (ascii ''rdg'', rdgValue), (ascii ''@_type'', t)]"
    assume i: "extract_inline ?n st = Some st"
    have "extractWords_entries ?n st = st"
      using assms by (intro extractWords_entries_skipped) (simp add: startsWith_def ascii_def)
    with i show "extractWords (JObj ?n) st = st"
      by (simp add: extractWords.simps)
  }
qed

theorem only_qere_readings_walked_witness:
  "extractWords (JObj example_accent_note) init_state = init_state
   \<and> extractWords_entries [(ascii ''note'', JObj example_accent_note)] init_state = init_state
   \<and> length (verse_words (hd (parseOsis EXOD_20_2_doc))) = 9"
proof -
  let ?c = "JStr [0x5D0, 0x5B8, 0x5E0, 0x5B9, 0x5DB, 0x5B4, 0x5D9]"
  let ?rdg = "JObj [(ascii ''#text'', JStr [0x5D0, 0x5B8, 0x5E0, 0x5B9, 0x5DB, 0x5B4, 0x5D9]),
                   (ascii ''@_type'', JStr (ascii ''x-accent''))]"
  let ?t = "JStr (ascii ''alternative'')"
  have n: "example_accent_note = [(ascii ''catchWord'', ?c), (ascii ''rdg'', ?rdg), (ascii ''@_type'', ?t)]"
    by (simp add: example_accent_note_def)
  have a: "\<forall>r. JObj r \<in> set (as_array ?rdg) \<longrightarrow> attr r (ascii ''@_type'') \<noteq> Some (ascii ''x-qere'')"
    by (simp add: as_array_def attr_def ascii_def)
  have m: "map_of example_accent_note (ascii ''rdg'') = Some ?rdg"
    by code_simp
  have i: "extract_inline example_accent_note init_state = Some init_state"
    by code_simp
  have l: "length (verse_words (hd (parseOsis EXOD_20_2_doc))) = 9"
    by code_simp
  from only_qere_readings_walked
         [OF a, of init_state "[]" example_accent_note ?c ?t "JStr []" "[]" "JStr []" "[]"] m i l
  show ?thesis
    by (simp add: n [symmetric])
qed


section \<open>Notes and catch words\<close>

text \<open>
  Claim C2, as stated, fails for the children of the verse element itself, which the
  loop of \<open>findVerses\<close> hands to \<open>extractWords\<close> without looking at their keys: a note
  directly below a verse is walked as an ordinary element and its inline text is
  pushed, word by word; a catch word there is pushed as well.
\<close>

theorem verse_level_note_counterexample:
  "map text' (words (extractWords_verse [(ascii ''note'', example_prose_note)] init_state))
     = [ascii ''We'', ascii ''read'']
   \<and> map text' (words (extractWords_verse [(ascii ''catchWord'', JStr [0x5D0, 0x5D1])] init_state))
     = [[0x5D0, 0x5D1]]"
  by code_simp

text \<open>
  Claim C2, amended.  In the loop of \<open>extractWords\<close> over the entries of an element,
  the key \<open>catchWord\<close> is passed by, and for the key \<open>note\<close> each note that is an object
  has its \<open>rdg\<close> child, when there is one and it is truthy, handed to the loop over the
  readings, and nothing else of it is looked at; a note that is not an object is passed
  by.  The loop over the entries of the verse element does not tell the keys apart: a
  note or a catch word directly below the verse goes to \<open>extractWords\<close> like any other
  child.
\<close>

theorem note_and_catchWord_intercepted:
  "extractWords_entries ((ascii ''catchWord'', v) # es) st = extractWords_entries es st
   \<and> extractWords_entries ((ascii ''note'', v) # es) st
       = extractWords_entries es (extractWords_notes (as_array v) st)
   \<and> extractWords_notes (JObj noteObj # ns) st
       = extractWords_notes ns
           (case map_of noteObj (ascii ''rdg'') of
              None \<Rightarrow> st
            | Some rdgValue \<Rightarrow>
                if truthy rdgValue then extractWords_rdgs (as_array rdgValue) st else st)
   \<and> extractWords_notes (JStr s # ns) st = extractWords_notes ns st
   \<and> extractWords_notes (JPrim b s # ns) st = extractWords_notes ns st
   \<and> extractWords_notes (JArr xs # ns) st = extractWords_notes ns st
   \<and> extractWords_verse ((ascii ''note'', v) # es) st = extractWords_verse es (extractWords v st)
   \<and> extractWords_verse ((ascii ''catchWord'', v) # es) st
       = extractWords_verse es (extractWords v st)"
  by (simp add: keys_distinct startsWith_def ascii_def split: option.splits)

theorem note_and_catchWord_intercepted_witness:
  "map text' (words (extractWords_entries
                       [(ascii ''catchWord'', JStr [0x5D0]), (ascii ''note'', example_qere_note)]
                       init_state))
     = [[0x5D4, 0x5B7, 0x5D9, 0x5B0, 0x5E6, 0x5B5, 0x5D0]]
   \<and> length (words (extractWords_verse [(ascii ''note'', example_qere_note)] init_state)) = 4"
proof -
  have a: "map text' (words (extractWords_entries [(ascii ''note'', example_qere_note)] init_state))
             = [[0x5D4, 0x5B7, 0x5D9, 0x5B0, 0x5E6, 0x5B5, 0x5D0]]"
    by code_simp
  have b: "length (words (extractWords_verse [] (extractWords example_qere_note init_state))) = 4"
    by code_simp
  from note_and_catchWord_intercepted
         [of "JStr [0x5D0]" "[(ascii ''note'', example_qere_note)]" init_state]
  have c: "extractWords_entries
             [(ascii ''catchWord'', JStr [0x5D0]), (ascii ''note'', example_qere_note)] init_state
           = extractWords_entries [(ascii ''note'', example_qere_note)] init_state"
    by blast
  from note_and_catchWord_intercepted [of example_qere_note "[]" init_state]
  have d: "extractWords_verse [(ascii ''note'', example_qere_note)] init_state
           = extractWords_verse [] (extractWords example_qere_note init_state)"
    by blast
  from a b show ?thesis
    by (simp only: c d)
qed


section \<open>Strong's numbers\<close>

text \<open>
  Claim C1.  For every lemma string \<open>extractStrongs\<close> returns the list of the matches
  of an optional marker \<open>strong:\<close> or \<open>strongs:\<close>, an optional prefix letter and one
  to five digits, from left to right and with nothing removed, each as the letter in
  upper case (or \<open>H\<close>) followed by the number without leading zeros; no lemma gives
  the empty list.  So \<open>"1"\<close> gives \<open>H1\<close>, \<open>"1471 a"\<close> gives \<open>H1471\<close>, \<open>"b/990"\<close> gives
  \<open>H990\<close>, and \<open>"l"\<close> and \<open>"c/l"\<close> give nothing.
\<close>

theorem extractStrongs_matches_spec:
  "extractStrongs None = []
   \<and> extractStrongs (Some s) = spec_strongs s
   \<and> (0 < n \<longrightarrow> hd (decimal n) \<noteq> 48)
   \<and> extractStrongs (Some (ascii ''1'')) = [ascii ''H1'']
   \<and> extractStrongs (Some (ascii ''1471 a'')) = [ascii ''H1471'']
   \<and> extractStrongs (Some (ascii ''b/990'')) = [ascii ''H990'']
   \<and> extractStrongs (Some (ascii ''l'')) = []
   \<and> extractStrongs (Some (ascii ''c/l'')) = []"
proof (intro conjI impI)
  show "extractStrongs None = []"
    by (simp add: extractStrongs_def)
  show "extractStrongs (Some s) = spec_strongs s"
    by (simp add: extractStrongs_def extractStrongs_loop_spec spec_strongs.simps [of "[]"]
          spec_match_at_Nil)
  show "hd (decimal n) \<noteq> 48" if "0 < n"
    using that by (rule decimal_no_leading_zero)
  show "extractStrongs (Some (ascii ''1'')) = [ascii ''H1'']"
    by code_simp
  show "extractStrongs (Some (ascii ''1471 a'')) = [ascii ''H1471'']"
    by code_simp
  show "extractStrongs (Some (ascii ''b/990'')) = [ascii ''H990'']"
    by code_simp
  show "extractStrongs (Some (ascii ''l'')) = []"
    by code_simp
  show "extractStrongs (Some (ascii ''c/l'')) = []"
    by code_simp
qed

theorem extractStrongs_matches_spec_witness:
  "extractStrongs (Some (ascii ''strongs:g0012 7 7 strong:123456''))
     = [ascii ''G12'', ascii ''H7'', ascii ''H7'', ascii ''H12345'', ascii ''H6'']
   \<and> hd (decimal 12) = 49"
proof -
  have s: "spec_strongs (ascii ''strongs:g0012 7 7 strong:123456'')
             = [ascii ''G12'', ascii ''H7'', ascii ''H7'', ascii ''H12345'', ascii ''H6'']"
    by code_simp
  have d: "hd (decimal 12) = 49"
    by code_simp
  from extractStrongs_matches_spec [of "ascii ''strongs:g0012 7 7 strong:123456''" 12] s d
  show ?thesis
    by simp
qed

end
